theory Spec2Isabelle
  imports Main
begin

section \<open>Node and linkage model\<close>

text \<open>
  The tree of \<^verbatim>\<open>RedBlackTree.h\<close> is a graph of reference-counted nodes. A node is
  identified by the object a \<^verbatim>\<open>shared_ptr\<close> points at; \<open>None\<close> is the empty pointer.
  The store maps every node identity to the node's fields. Nodes are never destroyed
  while an operation runs (the caller and the tree hold references), so locking a
  \<^verbatim>\<open>weak_ptr\<close> parent link yields the stored pointer.
\<close>

datatype COLOR = RED | BLACK

type_synonym addr = nat
type_synonym ptr = "addr option"

text \<open>
  Modelled from the spec: the node type of \<^verbatim>\<open>RedBlackTreeNode.h\<close> is not part of the
  sources at hand. The spec's data model gives it a key, a colour, the two child links and
  the parent back-reference; the key type is any totally ordered type, here \<open>int\<close>.
\<close>

record node =
  key :: int
  color :: COLOR
  parent :: ptr
  lchild :: ptr
  rchild :: ptr

record tree =
  root :: ptr
  heap :: "addr \<Rightarrow> node"

datatype error = InvalidArgument | NullPointerDereference

text \<open>
  An operation returns normally with a value and the tree as it left it, or fails with the
  tree as it was when it failed: \<open>InvalidArgument\<close> is the exception
  \<^verbatim>\<open>std::invalid_argument\<close>, \<open>NullPointerDereference\<close> is a field access through an
  empty pointer. \<open>Diverge\<close> says that a loop did not finish within the given number
  of iterations.
\<close>

datatype 'a result = Return 'a tree | Fail error tree | Diverge

definition and_then :: "'a result \<Rightarrow> ('a \<Rightarrow> tree \<Rightarrow> 'b result) \<Rightarrow> 'b result" where
  "and_then r f = (case r of Return v s \<Rightarrow> f v s | Fail e s \<Rightarrow> Fail e s | Diverge \<Rightarrow> Diverge)"

definition set_root :: "ptr \<Rightarrow> tree \<Rightarrow> tree" where
  "set_root p s = s\<lparr>root := p\<rparr>"

definition set_color :: "addr \<Rightarrow> COLOR \<Rightarrow> tree \<Rightarrow> tree" where
  "set_color a c s = s\<lparr>heap := (heap s)(a := (heap s a)\<lparr>color := c\<rparr>)\<rparr>"

definition set_parent :: "addr \<Rightarrow> ptr \<Rightarrow> tree \<Rightarrow> tree" where
  "set_parent a p s = s\<lparr>heap := (heap s)(a := (heap s a)\<lparr>parent := p\<rparr>)\<rparr>"

definition set_lchild :: "addr \<Rightarrow> ptr \<Rightarrow> tree \<Rightarrow> tree" where
  "set_lchild a p s = s\<lparr>heap := (heap s)(a := (heap s a)\<lparr>lchild := p\<rparr>)\<rparr>"

definition set_rchild :: "addr \<Rightarrow> ptr \<Rightarrow> tree \<Rightarrow> tree" where
  "set_rchild a p s = s\<lparr>heap := (heap s)(a := (heap s a)\<lparr>rchild := p\<rparr>)\<rparr>"

text \<open>
  Modelled from the spec: \<^verbatim>\<open>is_left_child\<close> and \<^verbatim>\<open>is_right_child\<close> are members of the
  missing node type. A node is a left (right) child when it has a parent whose left
  (right) link points at the node itself.
\<close>

definition is_left_child :: "tree \<Rightarrow> addr \<Rightarrow> bool" where
  "is_left_child s a =
     (case parent (heap s a) of None \<Rightarrow> False | Some p \<Rightarrow> lchild (heap s p) = Some a)"

definition is_right_child :: "tree \<Rightarrow> addr \<Rightarrow> bool" where
  "is_right_child s a =
     (case parent (heap s a) of None \<Rightarrow> False | Some p \<Rightarrow> rchild (heap s p) = Some a)"

text \<open>The test \<^verbatim>\<open>p && p->color == c\<close> on a possibly empty pointer.\<close>

definition is_color :: "tree \<Rightarrow> ptr \<Rightarrow> COLOR \<Rightarrow> bool" where
  "is_color s p c = (case p of None \<Rightarrow> False | Some a \<Rightarrow> color (heap s a) = c)"

section \<open>Rotation primitives\<close>

text \<open>
  \<^verbatim>\<open>left_rotate(node, root)\<close>: the second argument is always the tree's own root
  member, passed by reference, so the model writes the root of the tree.
\<close>

definition left_rotate :: "ptr \<Rightarrow> tree \<Rightarrow> unit result" where
  "left_rotate node s =
     (case node of
        None \<Rightarrow> Fail InvalidArgument s
      | Some n \<Rightarrow>
          (case rchild (heap s n) of
             None \<Rightarrow> Return () s
           | Some r_node \<Rightarrow>
               let l_r_node = lchild (heap s r_node);
                   s1 = set_parent r_node (parent (heap s n)) s;
                   s2 = (case parent (heap s1 n) of
                           Some shared_p \<Rightarrow>
                             let t = (if is_left_child s1 n
                                      then set_lchild shared_p (Some r_node) s1 else s1)
                             in (if is_right_child t n
                                 then set_rchild shared_p (Some r_node) t else t)
                         | None \<Rightarrow> set_root (Some r_node) s1);
                   s3 = set_rchild n l_r_node s2;
                   s4 = (case l_r_node of
                           Some c \<Rightarrow> set_parent c (Some n) s3
                         | None \<Rightarrow> s3);
                   s5 = set_parent n (Some r_node) s4
               in Return () (set_lchild r_node (Some n) s5)))"

definition right_rotate :: "ptr \<Rightarrow> tree \<Rightarrow> unit result" where
  "right_rotate node s =
     (case node of
        None \<Rightarrow> Fail InvalidArgument s
      | Some n \<Rightarrow>
          (case lchild (heap s n) of
             None \<Rightarrow> Return () s
           | Some l_node \<Rightarrow>
               let r_l_node = rchild (heap s l_node);
                   s1 = set_parent l_node (parent (heap s n)) s;
                   s2 = (case parent (heap s1 n) of
                           Some shared_p \<Rightarrow>
                             let t = (if is_left_child s1 n
                                      then set_lchild shared_p (Some l_node) s1 else s1)
                             in (if is_right_child t n
                                 then set_rchild shared_p (Some l_node) t else t)
                         | None \<Rightarrow> set_root (Some l_node) s1);
                   s3 = set_lchild n r_l_node s2;
                   s4 = (case r_l_node of
                           Some c \<Rightarrow> set_parent c (Some n) s3
                         | None \<Rightarrow> s3);
                   s5 = set_parent n (Some l_node) s4
               in Return () (set_rchild l_node (Some n) s5)))"

section \<open>Transplant\<close>

definition transplant :: "ptr \<Rightarrow> ptr \<Rightarrow> tree \<Rightarrow> unit result" where
  "transplant u v s =
     (case u of
        None \<Rightarrow> Fail InvalidArgument s
      | Some ua \<Rightarrow>
          let u_parent = parent (heap s ua);
              s1 = (case u_parent of
                      None \<Rightarrow> set_root v s
                    | Some up \<Rightarrow>
                        if is_left_child s ua then set_lchild up v s
                        else if is_right_child s ua then set_rchild up v s
                        else s)
          in Return () (case v of Some va \<Rightarrow> set_parent va u_parent s1 | None \<Rightarrow> s1))"

section \<open>Navigation\<close>

text \<open>
  The loops of \<^verbatim>\<open>minimum\<close> and \<^verbatim>\<open>maximum\<close>, with the number of iterations they
  may take; \<open>None\<close> when that number is used up. The message the source prints for an
  empty subtree is not modelled.
\<close>

fun minimum_loop :: "nat \<Rightarrow> tree \<Rightarrow> ptr \<Rightarrow> ptr \<Rightarrow> ptr option" where
  "minimum_loop 0 s current current_parent = None"
| "minimum_loop (Suc fuel) s current current_parent =
     (case current of
        None \<Rightarrow> Some current_parent
      | Some c \<Rightarrow> minimum_loop fuel s (lchild (heap s c)) (Some c))"

definition minimum :: "nat \<Rightarrow> ptr \<Rightarrow> tree \<Rightarrow> ptr result" where
  "minimum fuel node s =
     (case minimum_loop fuel s node None of None \<Rightarrow> Diverge | Some m \<Rightarrow> Return m s)"

fun maximum_loop :: "nat \<Rightarrow> tree \<Rightarrow> ptr \<Rightarrow> ptr \<Rightarrow> ptr option" where
  "maximum_loop 0 s current current_parent = None"
| "maximum_loop (Suc fuel) s current current_parent =
     (case current of
        None \<Rightarrow> Some current_parent
      | Some c \<Rightarrow> maximum_loop fuel s (rchild (heap s c)) (Some c))"

definition maximum :: "nat \<Rightarrow> ptr \<Rightarrow> tree \<Rightarrow> ptr result" where
  "maximum fuel node s =
     (case maximum_loop fuel s node None of None \<Rightarrow> Diverge | Some m \<Rightarrow> Return m s)"

text \<open>The ascent of \<^verbatim>\<open>successor\<close>: the loop variables are \<open>shared_p\<close> and \<open>current\<close>.\<close>

fun successor_loop :: "nat \<Rightarrow> tree \<Rightarrow> ptr \<Rightarrow> addr \<Rightarrow> ptr option" where
  "successor_loop 0 s shared_p current = None"
| "successor_loop (Suc fuel) s shared_p current =
     (case shared_p of
        None \<Rightarrow> Some None
      | Some p \<Rightarrow>
          if is_right_child s current
          then successor_loop fuel s (parent (heap s p)) p
          else Some (Some p))"

definition successor :: "nat \<Rightarrow> ptr \<Rightarrow> tree \<Rightarrow> ptr result" where
  "successor fuel node s =
     (case node of
        None \<Rightarrow> Fail InvalidArgument s
      | Some n \<Rightarrow>
          (case rchild (heap s n) of
             Some r \<Rightarrow> minimum fuel (Some r) s
           | None \<Rightarrow>
               (case successor_loop fuel s (parent (heap s n)) n of
                  None \<Rightarrow> Diverge
                | Some res \<Rightarrow> Return res s)))"

fun predecessor_loop :: "nat \<Rightarrow> tree \<Rightarrow> ptr \<Rightarrow> addr \<Rightarrow> ptr option" where
  "predecessor_loop 0 s shared_p current = None"
| "predecessor_loop (Suc fuel) s shared_p current =
     (case shared_p of
        None \<Rightarrow> Some None
      | Some p \<Rightarrow>
          if is_left_child s current
          then predecessor_loop fuel s (parent (heap s p)) p
          else Some (Some p))"

definition predecessor :: "nat \<Rightarrow> ptr \<Rightarrow> tree \<Rightarrow> ptr result" where
  "predecessor fuel node s =
     (case node of
        None \<Rightarrow> Fail InvalidArgument s
      | Some n \<Rightarrow>
          (case lchild (heap s n) of
             Some l \<Rightarrow> maximum fuel (Some l) s
           | None \<Rightarrow>
               (case predecessor_loop fuel s (parent (heap s n)) n of
                  None \<Rightarrow> Diverge
                | Some res \<Rightarrow> Return res s)))"

section \<open>Insertion\<close>

text \<open>A field access \<^verbatim>\<open>p->f\<close>: it fails when \<open>p\<close> is the empty pointer.\<close>

definition deref :: "ptr \<Rightarrow> tree \<Rightarrow> (addr \<Rightarrow> 'a result) \<Rightarrow> 'a result" where
  "deref p s f = (case p of None \<Rightarrow> Fail NullPointerDereference s | Some a \<Rightarrow> f a)"

text \<open>
  One pass through the body of the \<^verbatim>\<open>while\<close> loop of \<^verbatim>\<open>insert_fixup\<close>, entered
  with \<open>node_p\<close> RED. It returns the loop variables \<open>node\<close> and \<open>node_p\<close> as the body
  leaves them.
\<close>

definition insert_fixup_body :: "addr \<Rightarrow> addr \<Rightarrow> tree \<Rightarrow> (addr \<times> ptr) result" where
  "insert_fixup_body node node_p s =
     (let node_p_p = parent (heap s node_p) in
      if is_left_child s node_p then
        deref node_p_p s (\<lambda>g.
          let uncle = rchild (heap s g) in
          if is_color s uncle RED then
            deref uncle s (\<lambda>u.
              let s1 = set_color g RED (set_color u BLACK (set_color node_p BLACK s));
                  np = parent (heap s1 g)
              in Return (g, np) (if np = None then set_color g BLACK s1 else s1))
          else if is_right_child s node then
            and_then (left_rotate (Some node_p) s) (\<lambda>_ s1.
              let np = parent (heap s1 node_p) in
              deref np s1 (\<lambda>p.
                let s2 = set_color p BLACK s1 in
                deref (parent (heap s1 p)) s2 (\<lambda>pp.
                  and_then (right_rotate (Some pp) (set_color pp RED s2)) (\<lambda>_ s3.
                    Return (node_p, np) s3))))
          else
            and_then (right_rotate (Some g) (set_color g RED (set_color node_p BLACK s)))
              (\<lambda>_ s1. Return (node, Some node_p) s1))
      else
        deref node_p_p s (\<lambda>g.
          let uncle = lchild (heap s g) in
          if is_color s uncle RED then
            deref uncle s (\<lambda>u.
              let s1 = set_color g RED (set_color u BLACK (set_color node_p BLACK s));
                  np = parent (heap s1 g)
              in Return (g, np) (if np = None then set_color g BLACK s1 else s1))
          else if is_left_child s node then
            and_then (right_rotate (Some node_p) s) (\<lambda>_ s1.
              let np = parent (heap s1 node_p) in
              deref np s1 (\<lambda>p.
                let s2 = set_color p BLACK s1 in
                deref (parent (heap s1 p)) s2 (\<lambda>pp.
                  and_then (left_rotate (Some pp) (set_color pp RED s2)) (\<lambda>_ s3.
                    Return (node_p, np) s3))))
          else
            and_then (left_rotate (Some g) (set_color g RED (set_color node_p BLACK s)))
              (\<lambda>_ s1. Return (node, Some node_p) s1)))"

text \<open>
  The \<^verbatim>\<open>while (node_p->color == RED)\<close> loop, which ends early when the body leaves
  \<open>node_p\<close> empty.
\<close>

fun insert_fixup_loop :: "nat \<Rightarrow> addr \<Rightarrow> addr \<Rightarrow> tree \<Rightarrow> unit result" where
  "insert_fixup_loop 0 node node_p s = Diverge"
| "insert_fixup_loop (Suc fuel) node node_p s =
     (if color (heap s node_p) = RED then
        and_then (insert_fixup_body node node_p s) (\<lambda>(node', np') s'.
          case np' of
            None \<Rightarrow> Return () s'
          | Some p' \<Rightarrow> insert_fixup_loop fuel node' p' s')
      else Return () s)"

definition insert_fixup :: "nat \<Rightarrow> ptr \<Rightarrow> tree \<Rightarrow> unit result" where
  "insert_fixup fuel node s =
     deref node s (\<lambda>n.
       case parent (heap s n) of
         None \<Rightarrow> Return () (set_color n BLACK (set_root (Some n) s))
       | Some node_p \<Rightarrow> insert_fixup_loop fuel n node_p s)"

text \<open>
  The descent of \<^verbatim>\<open>insert\<close> from the root to an empty child slot; the loop variables
  are \<open>temp\<close>, \<open>temp_parent\<close> and \<open>left\<close>.
\<close>

fun insert_descend :: "nat \<Rightarrow> tree \<Rightarrow> int \<Rightarrow> ptr \<Rightarrow> ptr \<Rightarrow> bool \<Rightarrow> (ptr \<times> bool) option" where
  "insert_descend 0 s k temp temp_parent left = None"
| "insert_descend (Suc fuel) s k temp temp_parent left =
     (case temp of
        None \<Rightarrow> Some (temp_parent, left)
      | Some t \<Rightarrow>
          if k < key (heap s t)
          then insert_descend fuel s k (lchild (heap s t)) (Some t) True
          else insert_descend fuel s k (rchild (heap s t)) (Some t) False)"

text \<open>
  \<^verbatim>\<open>insert\<close> up to the call of \<^verbatim>\<open>insert_fixup\<close>, for a tree that is not empty: the
  descent, the linking of the node below \<open>temp_parent\<close> and the colouring of the node.
\<close>

definition insert_link :: "nat \<Rightarrow> ptr \<Rightarrow> tree \<Rightarrow> unit result" where
  "insert_link fuel node s =
     deref node s (\<lambda>n.
       case insert_descend fuel s (key (heap s n)) (root s) None True of
         None \<Rightarrow> Diverge
       | Some (temp_parent, left) \<Rightarrow>
           let s1 = set_parent n temp_parent s in
           deref temp_parent s1 (\<lambda>tp.
             let s2 = (if left then set_lchild tp (Some n) s1 else set_rchild tp (Some n) s1)
             in Return () (set_color n RED s2)))"

definition insert :: "nat \<Rightarrow> ptr \<Rightarrow> tree \<Rightarrow> unit result" where
  "insert fuel node s =
     (if root s = None then Return () (set_root node s)
      else and_then (insert_link fuel node s) (\<lambda>_ s1. insert_fixup fuel node s1))"

section \<open>Deletion\<close>

text \<open>
  The body of the \<^verbatim>\<open>while\<close> loop of \<^verbatim>\<open>delete_fixup\<close>, block by block. Each block
  returns the loop variable it sets: the first \<^verbatim>\<open>if\<close> (Case 1) the sibling \<open>w\<close>, the
  blocks of Cases 2 to 4 the \<open>node\<close>.

  Case 1 for a \<open>node\<close> that is a left child: the sibling is RED. After the rotation the
  sibling is read again from the parent.
\<close>

definition delete_fixup_left_case1 :: "addr \<Rightarrow> ptr \<Rightarrow> tree \<Rightarrow> ptr result" where
  "delete_fixup_left_case1 node_p w s =
     (if is_color s w RED then
        deref w s (\<lambda>wa.
          and_then (left_rotate (Some node_p) (set_color node_p RED (set_color wa BLACK s)))
            (\<lambda>_ s1. Return (rchild (heap s1 node_p)) s1))
      else Return w s)"

text \<open>
  Case 1 for a \<open>node\<close> that is not a left child: here the source does not read the
  sibling again after the rotation.
\<close>

definition delete_fixup_right_case1 :: "addr \<Rightarrow> ptr \<Rightarrow> tree \<Rightarrow> ptr result" where
  "delete_fixup_right_case1 node_p w s =
     (if is_color s w RED then
        deref w s (\<lambda>wa.
          and_then (right_rotate (Some node_p) (set_color node_p RED (set_color wa BLACK s)))
            (\<lambda>_ s1. Return w s1))
      else Return w s)"

text \<open>Case 2, the same on both sides: the sibling becomes RED, \<open>node\<close> moves to its parent.\<close>

definition delete_fixup_case2 :: "addr \<Rightarrow> ptr \<Rightarrow> tree \<Rightarrow> ptr result" where
  "delete_fixup_case2 node w s =
     deref w s (\<lambda>wa. let s2 = set_color wa RED s in Return (parent (heap s2 node)) s2)"

definition delete_fixup_left_case3 :: "addr \<Rightarrow> ptr \<Rightarrow> tree \<Rightarrow> ptr result" where
  "delete_fixup_left_case3 node w s =
     deref w s (\<lambda>wa.
       deref (lchild (heap s wa)) s (\<lambda>wl.
         and_then (right_rotate (Some wa) (set_color wa RED (set_color wl BLACK s)))
           (\<lambda>_ s2. deref (parent (heap s2 node)) s2 (\<lambda>_. Return (Some node) s2))))"

definition delete_fixup_left_case4 :: "addr \<Rightarrow> ptr \<Rightarrow> tree \<Rightarrow> ptr result" where
  "delete_fixup_left_case4 node w s =
     deref w s (\<lambda>wa.
       deref (parent (heap s node)) s (\<lambda>np.
         let s2 = set_color np BLACK (set_color wa (color (heap s np)) s) in
         deref (rchild (heap s2 wa)) s2 (\<lambda>wr.
           and_then (left_rotate (Some np) (set_color wr BLACK s2))
             (\<lambda>_ s3. Return (root s3) s3))))"

definition delete_fixup_right_case3 :: "addr \<Rightarrow> ptr \<Rightarrow> tree \<Rightarrow> ptr result" where
  "delete_fixup_right_case3 node w s =
     deref w s (\<lambda>wa.
       deref (rchild (heap s wa)) s (\<lambda>wr.
         and_then (left_rotate (Some wa) (set_color wa RED (set_color wr BLACK s)))
           (\<lambda>_ s2. deref (parent (heap s2 node)) s2 (\<lambda>_. Return (Some node) s2))))"

definition delete_fixup_right_case4 :: "addr \<Rightarrow> ptr \<Rightarrow> tree \<Rightarrow> ptr result" where
  "delete_fixup_right_case4 node w s =
     deref w s (\<lambda>wa.
       deref (parent (heap s node)) s (\<lambda>np.
         let s2 = set_color np BLACK (set_color wa (color (heap s np)) s) in
         deref (lchild (heap s2 wa)) s2 (\<lambda>wl.
           and_then (right_rotate (Some np) (set_color wl BLACK s2))
             (\<lambda>_ s3. Return (root s3) s3))))"

text \<open>
  The \<^verbatim>\<open>if\<close> / \<^verbatim>\<open>else if\<close> chain of Cases 2 to 4 with the conditions of the source:
  the condition of Case 2 is that the sibling is present and BLACK.
\<close>

definition delete_fixup_left_chain :: "addr \<Rightarrow> ptr \<Rightarrow> tree \<Rightarrow> ptr result" where
  "delete_fixup_left_chain node w s =
     (if is_color s w BLACK then delete_fixup_case2 node w s
      else if is_color s w BLACK
              \<and> (case w of None \<Rightarrow> False | Some wa \<Rightarrow>
                    is_color s (lchild (heap s wa)) RED
                    \<and> (rchild (heap s wa) = None \<or> is_color s (rchild (heap s wa)) BLACK))
      then delete_fixup_left_case3 node w s
      else if is_color s w BLACK
              \<and> (case w of None \<Rightarrow> False | Some wa \<Rightarrow> is_color s (rchild (heap s wa)) RED)
      then delete_fixup_left_case4 node w s
      else Return (Some node) s)"

definition delete_fixup_right_chain :: "addr \<Rightarrow> ptr \<Rightarrow> tree \<Rightarrow> ptr result" where
  "delete_fixup_right_chain node w s =
     (if is_color s w BLACK then delete_fixup_case2 node w s
      else if is_color s w BLACK
              \<and> (case w of None \<Rightarrow> False | Some wa \<Rightarrow>
                    is_color s (rchild (heap s wa)) RED
                    \<and> (lchild (heap s wa) = None \<or> is_color s (lchild (heap s wa)) BLACK))
      then delete_fixup_right_case3 node w s
      else if is_color s w BLACK
              \<and> (case w of None \<Rightarrow> False | Some wa \<Rightarrow> is_color s (lchild (heap s wa)) RED)
      then delete_fixup_right_case4 node w s
      else Return (Some node) s)"

text \<open>
  One pass through the loop body: the first \<^verbatim>\<open>if\<close> and then, as a second statement,
  the chain.
\<close>

definition delete_fixup_left :: "addr \<Rightarrow> tree \<Rightarrow> ptr result" where
  "delete_fixup_left node s =
     deref (parent (heap s node)) s (\<lambda>node_p.
       and_then (delete_fixup_left_case1 node_p (rchild (heap s node_p)) s)
         (\<lambda>w s1. delete_fixup_left_chain node w s1))"

definition delete_fixup_right :: "addr \<Rightarrow> tree \<Rightarrow> ptr result" where
  "delete_fixup_right node s =
     deref (parent (heap s node)) s (\<lambda>node_p.
       and_then (delete_fixup_right_case1 node_p (lchild (heap s node_p)) s)
         (\<lambda>w s1. delete_fixup_right_chain node w s1))"

definition delete_fixup_iter :: "addr \<Rightarrow> tree \<Rightarrow> ptr result" where
  "delete_fixup_iter node s =
     (if is_left_child s node then delete_fixup_left node s else delete_fixup_right node s)"

text \<open>
  \<^verbatim>\<open>delete_fixup\<close>: the loop runs while \<open>node\<close> is not the root, is present and is
  BLACK; afterwards a present \<open>node\<close> is coloured BLACK.
\<close>

fun delete_fixup :: "nat \<Rightarrow> ptr \<Rightarrow> tree \<Rightarrow> unit result" where
  "delete_fixup 0 node s = Diverge"
| "delete_fixup (Suc fuel) node s =
     (case node of
        None \<Rightarrow> Return () s
      | Some x \<Rightarrow>
          if node \<noteq> root s \<and> color (heap s x) = BLACK
          then and_then (delete_fixup_iter x s) (\<lambda>node' s'. delete_fixup fuel node' s')
          else Return () (set_color x BLACK s))"

text \<open>
  The membership test of \<^verbatim>\<open>remove\<close>: the descent from the root guided by the key of
  \<open>node\<close>, until \<open>temp\<close> is empty or is \<open>node\<close> itself. It returns the final \<open>temp\<close>.
\<close>

fun remove_find :: "nat \<Rightarrow> tree \<Rightarrow> addr \<Rightarrow> ptr \<Rightarrow> ptr option" where
  "remove_find 0 s node temp = None"
| "remove_find (Suc fuel) s node temp =
     (case temp of
        None \<Rightarrow> Some None
      | Some t \<Rightarrow>
          if t = node then Some (Some t)
          else if key (heap s node) < key (heap s t)
          then remove_find fuel s node (lchild (heap s t))
          else remove_find fuel s node (rchild (heap s t)))"

text \<open>
  The structural part of \<^verbatim>\<open>remove\<close> for a node found in the tree. It returns the
  local variables \<open>x\<close> and \<open>y_color\<close> with which the source decides on the call of
  \<^verbatim>\<open>delete_fixup\<close>; \<open>y_color\<close> is initialised to RED and assigned only where
  the node has two children.
\<close>

definition remove_splice :: "nat \<Rightarrow> addr \<Rightarrow> tree \<Rightarrow> (ptr \<times> COLOR) result" where
  "remove_splice fuel node s =
     (if lchild (heap s node) = None \<and> rchild (heap s node) = None then
        (case parent (heap s node) of
           Some parent_ptr \<Rightarrow>
             let t = (if is_left_child s node then set_lchild parent_ptr None s else s)
             in Return (None, RED)
                  (if is_right_child t node then set_rchild parent_ptr None t else t)
         | None \<Rightarrow> Return (None, RED) (set_root None s))
      else if rchild (heap s node) \<noteq> None \<and> lchild (heap s node) = None then
        and_then (transplant (Some node) (rchild (heap s node)) s)
          (\<lambda>_ s1. Return (rchild (heap s node), RED) s1)
      else if lchild (heap s node) \<noteq> None \<and> rchild (heap s node) = None then
        and_then (transplant (Some node) (lchild (heap s node)) s)
          (\<lambda>_ s1. Return (lchild (heap s node), RED) s1)
      else
        and_then (successor fuel (Some node) s) (\<lambda>y s0.
          deref y s0 (\<lambda>ya.
            let x = rchild (heap s0 ya);
                y_color = color (heap s0 ya)
            in and_then
                 (if y \<noteq> rchild (heap s0 node) then
                    and_then (transplant y (rchild (heap s0 ya)) s0) (\<lambda>_ s1.
                      let s2 = set_rchild ya (rchild (heap s1 node)) s1 in
                      deref (rchild (heap s2 node)) s2 (\<lambda>nr.
                        Return () (set_rchild node y (set_parent nr y s2))))
                  else Return () s0)
                 (\<lambda>_ s3.
                    and_then (transplant (Some node) y s3) (\<lambda>_ s4.
                      let s5 = set_lchild ya (lchild (heap s4 node)) s4 in
                      deref (lchild (heap s5 node)) s5 (\<lambda>nl.
                        let s6 = set_parent nl y s5 in
                        Return (x, y_color) (set_color ya (color (heap s6 node)) s6)))))))"

definition remove :: "nat \<Rightarrow> ptr \<Rightarrow> tree \<Rightarrow> unit result" where
  "remove fuel node s =
     (case node of
        None \<Rightarrow> Fail InvalidArgument s
      | Some n \<Rightarrow>
          (case remove_find fuel s n (root s) of
             None \<Rightarrow> Diverge
           | Some temp \<Rightarrow>
               if temp \<noteq> Some n then Fail InvalidArgument s
               else
                 and_then (remove_splice fuel n s) (\<lambda>(x, y_color) s1.
                   if y_color = BLACK then delete_fixup fuel x s1 else Return () s1)))"

section \<open>The invariants, read off the store\<close>

text \<open>
  The tree below a pointer as a value: the colours and keys in their places. The
  first argument bounds the depth; \<open>None\<close> when the links go deeper than that.
\<close>

datatype shape = Tip | Branch COLOR shape int shape

fun tree_of :: "nat \<Rightarrow> tree \<Rightarrow> ptr \<Rightarrow> shape option" where
  "tree_of 0 s p = None"
| "tree_of (Suc d) s p =
     (case p of
        None \<Rightarrow> Some Tip
      | Some a \<Rightarrow>
          (case tree_of d s (lchild (heap s a)) of
             None \<Rightarrow> None
           | Some l \<Rightarrow>
               (case tree_of d s (rchild (heap s a)) of
                  None \<Rightarrow> None
                | Some r \<Rightarrow> Some (Branch (color (heap s a)) l (key (heap s a)) r))))"

text \<open>I3: an absent child counts as BLACK.\<close>

fun color_of :: "shape \<Rightarrow> COLOR" where
  "color_of Tip = BLACK"
| "color_of (Branch c l k r) = c"

text \<open>I4: a RED node has no RED child.\<close>

fun no_red_red :: "shape \<Rightarrow> bool" where
  "no_red_red Tip = True"
| "no_red_red (Branch c l k r) =
     ((if c = RED then color_of l = BLACK \<and> color_of r = BLACK else True)
      \<and> no_red_red l \<and> no_red_red r)"

text \<open>
  I5: the number of BLACK nodes on every path down to an absent child, when all paths
  agree; \<open>None\<close> when two paths differ.
\<close>

fun black_height :: "shape \<Rightarrow> nat option" where
  "black_height Tip = Some 0"
| "black_height (Branch c l k r) =
     (case black_height l of
        None \<Rightarrow> None
      | Some hl \<Rightarrow>
          (case black_height r of
             None \<Rightarrow> None
           | Some hr \<Rightarrow>
               if hl = hr then Some (if c = BLACK then Suc hl else hl) else None))"

fun inorder :: "shape \<Rightarrow> int list" where
  "inorder Tip = []"
| "inorder (Branch c l k r) = inorder l @ k # inorder r"

text \<open>I2, I4, I5 and I6 together (I1 and I3 hold by the types).\<close>

definition rb_invariants :: "shape \<Rightarrow> bool" where
  "rb_invariants t =
     (color_of t = BLACK \<and> no_red_red t \<and> black_height t \<noteq> None \<and> sorted (inorder t))"

section \<open>Sequences of operations\<close>

text \<open>
  Modelled from the spec: a caller constructs a node with a key and a colour and no
  links, and hands it to \<^verbatim>\<open>insert\<close>; the construction itself belongs to the missing node
  type.
\<close>

definition new_node :: "addr \<Rightarrow> int \<Rightarrow> COLOR \<Rightarrow> tree \<Rightarrow> tree" where
  "new_node a k c s =
     s\<lparr>heap := (heap s)(a := \<lparr>key = k, color = c, parent = None, lchild = None, rchild = None\<rparr>)\<rparr>"

text \<open>The tree as its constructor leaves it: no root. No node has been handed over yet.\<close>

definition empty_tree :: tree where
  "empty_tree =
     \<lparr>root = None,
      heap = (\<lambda>_. \<lparr>key = 0, color = RED, parent = None, lchild = None, rchild = None\<rparr>)\<rparr>"

datatype operation = Insert addr int COLOR | Remove addr

fun run :: "nat \<Rightarrow> operation list \<Rightarrow> tree \<Rightarrow> unit result" where
  "run fuel [] s = Return () s"
| "run fuel (Insert a k c # ops) s =
     and_then (insert fuel (Some a) (new_node a k c s)) (\<lambda>_ s'. run fuel ops s')"
| "run fuel (Remove a # ops) s =
     and_then (remove fuel (Some a) s) (\<lambda>_ s'. run fuel ops s')"

section \<open>Notions of the specification\<close>

text \<open>
  Reachability by key-guided descent, in the words of the specification: from a pointer,
  the node is reached when the pointer is the node, or when the descent step chosen by
  comparing the key with the key at the pointer (left on \<open><\<close>, right otherwise) leads to
  a pointer from which it is reached.
\<close>

inductive bst_reach :: "tree \<Rightarrow> int \<Rightarrow> ptr \<Rightarrow> addr \<Rightarrow> bool" for s :: tree and k :: int where
  here: "bst_reach s k (Some n) n"
| left: "t \<noteq> n \<Longrightarrow> k < key (heap s t) \<Longrightarrow> bst_reach s k (lchild (heap s t)) n
           \<Longrightarrow> bst_reach s k (Some t) n"
| right: "t \<noteq> n \<Longrightarrow> \<not> k < key (heap s t) \<Longrightarrow> bst_reach s k (rchild (heap s t)) n
           \<Longrightarrow> bst_reach s k (Some t) n"

text \<open>An outcome other than the exception \<^verbatim>\<open>std::invalid_argument\<close>.\<close>

definition no_raise :: "'a result \<Rightarrow> bool" where
  "no_raise r = (case r of Fail InvalidArgument s \<Rightarrow> False | _ \<Rightarrow> True)"

text \<open>
  The chain of ancestors of a node: the node, its parent, the parent's parent, up to a
  node without parent.
\<close>

fun parent_chain :: "tree \<Rightarrow> addr list \<Rightarrow> bool" where
  "parent_chain s [] = False"
| "parent_chain s [c] = (parent (heap s c) = None)"
| "parent_chain s (c # p # cs) = (parent (heap s c) = Some p \<and> parent_chain s (p # cs))"

text \<open>
  Every node of the chain that has a parent hangs below it on exactly one side, as the
  nodes of a tree do.
\<close>

fun proper_links :: "tree \<Rightarrow> addr list \<Rightarrow> bool" where
  "proper_links s (c # p # cs) =
     ((lchild (heap s p) = Some c) \<noteq> (rchild (heap s p) = Some c) \<and> proper_links s (p # cs))"
| "proper_links s cs = True"

text \<open>
  The successor of a node without right child, in the words of the specification: the
  first ancestor reached via a left-child step while ascending, or none. The predecessor
  is the mirror image.
\<close>

fun first_left_step :: "tree \<Rightarrow> addr list \<Rightarrow> ptr" where
  "first_left_step s (c # p # cs) =
     (if lchild (heap s p) = Some c then Some p else first_left_step s (p # cs))"
| "first_left_step s cs = None"

fun first_right_step :: "tree \<Rightarrow> addr list \<Rightarrow> ptr" where
  "first_right_step s (c # p # cs) =
     (if rchild (heap s p) = Some c then Some p else first_right_step s (p # cs))"
| "first_right_step s cs = None"

section \<open>The nodes in the tree\<close>

text \<open>
  The nodes in the tree are the nodes reached from the root over child links.
\<close>

inductive_set reach :: "tree \<Rightarrow> addr set" for s :: tree where
  root: "root s = Some a \<Longrightarrow> a \<in> reach s"
| left: "a \<in> reach s \<Longrightarrow> lchild (heap s a) = Some c \<Longrightarrow> c \<in> reach s"
| right: "a \<in> reach s \<Longrightarrow> rchild (heap s a) = Some c \<Longrightarrow> c \<in> reach s"

text \<open>
  The linkage of a tree: the root has no parent, the parent link of a child of a node in
  the tree points back at that node, and no node is both the left and the right child of
  a node.
\<close>

definition wf_tree :: "tree \<Rightarrow> bool" where
  "wf_tree s =
     ((\<forall>a. root s = Some a \<longrightarrow> parent (heap s a) = None)
      \<and> (\<forall>a \<in> reach s. \<forall>c. lchild (heap s a) = Some c \<longrightarrow>
             parent (heap s c) = Some a \<and> rchild (heap s a) \<noteq> Some c)
      \<and> (\<forall>a \<in> reach s. \<forall>c. rchild (heap s a) = Some c \<longrightarrow> parent (heap s c) = Some a))"

text \<open>The child links as relations: any child, and left children only.\<close>

definition kid :: "tree \<Rightarrow> (addr \<times> addr) set" where
  "kid s = {(a, c). lchild (heap s a) = Some c \<or> rchild (heap s a) = Some c}"

definition lkid :: "tree \<Rightarrow> (addr \<times> addr) set" where
  "lkid s = {(a, c). lchild (heap s a) = Some c}"

text \<open>
  A step from \<open>s\<close> to \<open>s'\<close> that keeps the linkage and the set of nodes in the tree,
  and leaves every node outside the tree as it was.
\<close>

definition keeps :: "tree \<Rightarrow> tree \<Rightarrow> bool" where
  "keeps s s' =
     (wf_tree s' \<and> reach s' = reach s \<and> (\<forall>a. a \<notin> reach s \<longrightarrow> heap s' a = heap s a))"

section \<open>Concrete trees\<close>

text \<open>
  The tree with BLACK root 2, BLACK children 1 and 3, and the RED node 4 right below 3. It
  satisfies the invariants and is what inserting 2, 1, 3, 4 in this order builds.
\<close>

definition black_leaf_tree :: tree where
  "black_leaf_tree =
     \<lparr>root = Some 2,
      heap = (heap empty_tree)
        (1 := \<lparr>key = 1, color = BLACK, parent = Some 2, lchild = None, rchild = None\<rparr>,
         2 := \<lparr>key = 2, color = BLACK, parent = None, lchild = Some 1, rchild = Some 3\<rparr>,
         3 := \<lparr>key = 3, color = BLACK, parent = Some 2, lchild = None, rchild = Some 4\<rparr>,
         4 := \<lparr>key = 4, color = RED, parent = Some 3, lchild = None, rchild = None\<rparr>)\<rparr>"

text \<open>
  The tree that inserting 5, 4, 6, 3, removing 4 and inserting 1, 2 builds: root 3 with
  left child 1 (which has the RED right child 2) and right child 5 (which has the BLACK
  right child 6). Node 4 is the node removed on the way, with the links it kept.
\<close>

definition red_nephew_tree :: tree where
  "red_nephew_tree =
     \<lparr>root = Some 3,
      heap = (heap empty_tree)
        (1 := \<lparr>key = 1, color = BLACK, parent = Some 3, lchild = None, rchild = Some 2\<rparr>,
         2 := \<lparr>key = 2, color = RED, parent = Some 1, lchild = None, rchild = None\<rparr>,
         3 := \<lparr>key = 3, color = BLACK, parent = None, lchild = Some 1, rchild = Some 5\<rparr>,
         4 := \<lparr>key = 4, color = BLACK, parent = Some 5, lchild = Some 3, rchild = None\<rparr>,
         5 := \<lparr>key = 5, color = BLACK, parent = Some 3, lchild = None, rchild = Some 6\<rparr>,
         6 := \<lparr>key = 6, color = BLACK, parent = Some 5, lchild = None, rchild = None\<rparr>)\<rparr>"

text \<open>
  The same tree after the structural part of removing node 3: node 5 has taken its place,
  and \<^verbatim>\<open>delete_fixup\<close> is about to run on node 6.
\<close>

definition red_nephew_spliced :: tree where
  "red_nephew_spliced =
     \<lparr>root = Some 5,
      heap = (heap empty_tree)
        (1 := \<lparr>key = 1, color = BLACK, parent = Some 5, lchild = None, rchild = Some 2\<rparr>,
         2 := \<lparr>key = 2, color = RED, parent = Some 1, lchild = None, rchild = None\<rparr>,
         3 := \<lparr>key = 3, color = BLACK, parent = None, lchild = Some 1, rchild = Some 5\<rparr>,
         4 := \<lparr>key = 4, color = BLACK, parent = Some 5, lchild = Some 3, rchild = None\<rparr>,
         5 := \<lparr>key = 5, color = BLACK, parent = None, lchild = Some 1, rchild = Some 6\<rparr>,
         6 := \<lparr>key = 6, color = BLACK, parent = Some 5, lchild = None, rchild = None\<rparr>)\<rparr>"

text \<open>
  The tree that inserting 5, 2, 7, 4, removing 2, inserting 3, 1 and removing 3 builds,
  after the structural part of removing node 4: root 5 with the RED left child 1 and the
  BLACK right child 7, on which \<^verbatim>\<open>delete_fixup\<close> is about to run. Nodes 2, 3 and 4
  are the removed nodes, with the links they kept.
\<close>

definition red_sibling_spliced :: tree where
  "red_sibling_spliced =
     \<lparr>root = Some 5,
      heap = (heap empty_tree)
        (1 := \<lparr>key = 1, color = RED, parent = Some 5, lchild = None, rchild = None\<rparr>,
         2 := \<lparr>key = 2, color = BLACK, parent = Some 5, lchild = None, rchild = Some 4\<rparr>,
         3 := \<lparr>key = 3, color = BLACK, parent = Some 4, lchild = Some 1, rchild = None\<rparr>,
         4 := \<lparr>key = 4, color = BLACK, parent = None, lchild = Some 1, rchild = Some 5\<rparr>,
         5 := \<lparr>key = 5, color = BLACK, parent = None, lchild = Some 1, rchild = Some 7\<rparr>,
         7 := \<lparr>key = 7, color = BLACK, parent = Some 5, lchild = None, rchild = None\<rparr>)\<rparr>"

text \<open>
  The tree drawn for Case 1 in the comment of \<^verbatim>\<open>delete_fixup\<close>, with the keys 1 to 5 for
  A to E: BLACK root 2, BLACK left child 1, RED right child 4 with the BLACK children 3
  and 5. It satisfies the invariants.
\<close>

definition case1_tree :: tree where
  "case1_tree =
     \<lparr>root = Some 2,
      heap = (heap empty_tree)
        (1 := \<lparr>key = 1, color = BLACK, parent = Some 2, lchild = None, rchild = None\<rparr>,
         2 := \<lparr>key = 2, color = BLACK, parent = None, lchild = Some 1, rchild = Some 4\<rparr>,
         3 := \<lparr>key = 3, color = BLACK, parent = Some 4, lchild = None, rchild = None\<rparr>,
         4 := \<lparr>key = 4, color = RED, parent = Some 2, lchild = Some 3, rchild = Some 5\<rparr>,
         5 := \<lparr>key = 5, color = BLACK, parent = Some 4, lchild = None, rchild = None\<rparr>)\<rparr>"

text \<open>The same tree after the block of Case 1 at node 1: node 4 is the BLACK root above the RED node 2.\<close>

definition case1_tree_rotated :: tree where
  "case1_tree_rotated =
     \<lparr>root = Some 4,
      heap = (heap empty_tree)
        (1 := \<lparr>key = 1, color = BLACK, parent = Some 2, lchild = None, rchild = None\<rparr>,
         2 := \<lparr>key = 2, color = RED, parent = Some 4, lchild = Some 1, rchild = Some 3\<rparr>,
         3 := \<lparr>key = 3, color = BLACK, parent = Some 2, lchild = None, rchild = None\<rparr>,
         4 := \<lparr>key = 4, color = BLACK, parent = None, lchild = Some 2, rchild = Some 5\<rparr>,
         5 := \<lparr>key = 5, color = BLACK, parent = Some 4, lchild = None, rchild = None\<rparr>)\<rparr>"

text \<open>
  The tree that inserting 9, 10, 7, removing 7, inserting 11, 8, 4, 1, removing 4,
  inserting 6, 3, removing 11, inserting 2, 5 and removing 3, 5 builds: root 6 with the
  RED children 2 (above the BLACK node 1) and 10, whose only child 8 is BLACK and has the
  BLACK right child 9. Nodes 3, 4, 5, 7 and 11 are the removed nodes, with the links they
  kept.
\<close>

definition absent_sibling_tree :: tree where
  "absent_sibling_tree =
     \<lparr>root = Some 6,
      heap = (heap empty_tree)
        (1 := \<lparr>key = 1, color = BLACK, parent = Some 2, lchild = None, rchild = None\<rparr>,
         2 := \<lparr>key = 2, color = RED, parent = Some 6, lchild = Some 1, rchild = None\<rparr>,
         3 := \<lparr>key = 3, color = BLACK, parent = Some 2, lchild = None, rchild = Some 5\<rparr>,
         4 := \<lparr>key = 4, color = BLACK, parent = Some 8, lchild = Some 1, rchild = None\<rparr>,
         5 := \<lparr>key = 5, color = RED, parent = Some 2, lchild = None, rchild = None\<rparr>,
         6 := \<lparr>key = 6, color = BLACK, parent = None, lchild = Some 2, rchild = Some 10\<rparr>,
         7 := \<lparr>key = 7, color = RED, parent = Some 9, lchild = None, rchild = None\<rparr>,
         8 := \<lparr>key = 8, color = BLACK, parent = Some 10, lchild = None, rchild = Some 9\<rparr>,
         9 := \<lparr>key = 9, color = BLACK, parent = Some 8, lchild = None, rchild = None\<rparr>,
         10 := \<lparr>key = 10, color = RED, parent = Some 6, lchild = Some 8, rchild = None\<rparr>,
         11 := \<lparr>key = 11, color = BLACK, parent = Some 10, lchild = None, rchild = None\<rparr>)\<rparr>"

text \<open>
  The same tree after the structural part of removing node 6: the successor 8 has taken
  its place, node 9 has taken the place of node 8 below node 10, and \<^verbatim>\<open>delete_fixup\<close>
  is about to run on node 9, a left child without sibling.
\<close>

definition absent_sibling_spliced :: tree where
  "absent_sibling_spliced =
     \<lparr>root = Some 8,
      heap = (heap empty_tree)
        (1 := \<lparr>key = 1, color = BLACK, parent = Some 2, lchild = None, rchild = None\<rparr>,
         2 := \<lparr>key = 2, color = RED, parent = Some 8, lchild = Some 1, rchild = None\<rparr>,
         3 := \<lparr>key = 3, color = BLACK, parent = Some 2, lchild = None, rchild = Some 5\<rparr>,
         4 := \<lparr>key = 4, color = BLACK, parent = Some 8, lchild = Some 1, rchild = None\<rparr>,
         5 := \<lparr>key = 5, color = RED, parent = Some 2, lchild = None, rchild = None\<rparr>,
         6 := \<lparr>key = 6, color = BLACK, parent = None, lchild = Some 2, rchild = Some 8\<rparr>,
         7 := \<lparr>key = 7, color = RED, parent = Some 9, lchild = None, rchild = None\<rparr>,
         8 := \<lparr>key = 8, color = BLACK, parent = None, lchild = Some 2, rchild = Some 10\<rparr>,
         9 := \<lparr>key = 9, color = BLACK, parent = Some 10, lchild = None, rchild = None\<rparr>,
         10 := \<lparr>key = 10, color = RED, parent = Some 8, lchild = Some 9, rchild = None\<rparr>,
         11 := \<lparr>key = 11, color = BLACK, parent = Some 10, lchild = None, rchild = None\<rparr>)\<rparr>"

section \<open>Evaluation on concrete trees\<close>

lemmas fuel_numeral =
  minimum_loop.simps(2)[of "pred_numeral k" for k, folded numeral_eq_Suc]
  maximum_loop.simps(2)[of "pred_numeral k" for k, folded numeral_eq_Suc]
  successor_loop.simps(2)[of "pred_numeral k" for k, folded numeral_eq_Suc]
  predecessor_loop.simps(2)[of "pred_numeral k" for k, folded numeral_eq_Suc]
  insert_fixup_loop.simps(2)[of "pred_numeral k" for k, folded numeral_eq_Suc]
  insert_descend.simps(2)[of "pred_numeral k" for k, folded numeral_eq_Suc]
  delete_fixup.simps(2)[of "pred_numeral k" for k, folded numeral_eq_Suc]
  remove_find.simps(2)[of "pred_numeral k" for k, folded numeral_eq_Suc]
  tree_of.simps(2)[of "pred_numeral k" for k, folded numeral_eq_Suc]

lemmas field_defs =
  set_root_def set_color_def set_parent_def set_lchild_def set_rchild_def
  is_left_child_def is_right_child_def is_color_def new_node_def empty_tree_def

lemmas op_defs =
  and_then_def deref_def left_rotate_def right_rotate_def transplant_def
  minimum_def maximum_def successor_def predecessor_def
  insert_fixup_body_def insert_fixup_def insert_link_def insert_def
  delete_fixup_left_case1_def delete_fixup_right_case1_def delete_fixup_case2_def
  delete_fixup_left_case3_def delete_fixup_left_case4_def
  delete_fixup_right_case3_def delete_fixup_right_case4_def
  delete_fixup_left_chain_def delete_fixup_right_chain_def
  delete_fixup_left_def delete_fixup_right_def delete_fixup_iter_def
  remove_splice_def remove_def Let_def

lemmas exec_simps = fuel_numeral fun_upd_twist field_defs op_defs

lemma run_black_leaf_tree:
  "run 4 [Insert 2 2 BLACK, Insert 1 1 RED, Insert 3 3 RED, Insert 4 4 RED] empty_tree
     = Return () black_leaf_tree"
  by (simp add: exec_simps black_leaf_tree_def)

lemma run_red_nephew_tree:
  "run 4 [Insert 5 5 BLACK, Insert 4 4 RED, Insert 6 6 RED, Insert 3 3 RED, Remove 4,
          Insert 1 1 RED, Insert 2 2 RED] empty_tree
     = Return () red_nephew_tree"
  by (simp add: exec_simps red_nephew_tree_def)

lemma splice_red_nephew_tree:
  "remove_splice 4 3 red_nephew_tree = Return (Some 6, BLACK) red_nephew_spliced"
  by (simp add: exec_simps red_nephew_tree_def red_nephew_spliced_def)

lemma splice_red_sibling_tree:
  "and_then
     (run 4 [Insert 5 5 BLACK, Insert 2 2 RED, Insert 7 7 RED, Insert 4 4 RED, Remove 2,
             Insert 3 3 RED, Insert 1 1 RED, Remove 3] empty_tree)
     (\<lambda>_ s. remove_splice 4 4 s)
     = Return (Some 7, BLACK) red_sibling_spliced"
  by (simp add: exec_simps red_sibling_spliced_def)

section \<open>Argument checks\<close>

text \<open>
  C8: \<^verbatim>\<open>remove\<close>, \<^verbatim>\<open>successor\<close> and \<^verbatim>\<open>predecessor\<close> called with the empty pointer raise
  the invalid-argument failure, whatever the tree and before any loop runs, and leave the
  tree as it was.
\<close>

theorem null_argument_rejected:
  "remove fuel None s = Fail InvalidArgument s
   \<and> successor fuel None s = Fail InvalidArgument s
   \<and> predecessor fuel None s = Fail InvalidArgument s"
  by (simp add: remove_def successor_def predecessor_def)

lemma left_rotate_Some: "\<exists>s'. left_rotate (Some n) s = Return () s'"
  by (simp add: left_rotate_def Let_def split: option.split)

lemma right_rotate_Some: "\<exists>s'. right_rotate (Some n) s = Return () s'"
  by (simp add: right_rotate_def Let_def split: option.split)

lemma transplant_Some: "\<exists>s'. transplant (Some u) v s = Return () s'"
  by (simp add: transplant_def Let_def)

text \<open>
  C6: \<^verbatim>\<open>left_rotate\<close>, \<^verbatim>\<open>right_rotate\<close> and \<^verbatim>\<open>transplant\<close> raise the invalid-argument
  failure when their first argument is the empty pointer, and return normally when it is
  a node; a left rotation at a node without right child, and a right rotation at a node
  without left child, return the tree unchanged.
\<close>

theorem rotate_transplant_null_check:
  "left_rotate None s = Fail InvalidArgument s
   \<and> right_rotate None s = Fail InvalidArgument s
   \<and> transplant None v s = Fail InvalidArgument s
   \<and> (\<exists>s'. left_rotate (Some n) s = Return () s')
   \<and> (\<exists>s'. right_rotate (Some n) s = Return () s')
   \<and> (\<exists>s'. transplant (Some n) v s = Return () s')
   \<and> (rchild (heap s n) = None \<longrightarrow> left_rotate (Some n) s = Return () s)
   \<and> (lchild (heap s n) = None \<longrightarrow> right_rotate (Some n) s = Return () s)"
proof -
  have "rchild (heap s n) = None \<longrightarrow> left_rotate (Some n) s = Return () s"
    by (simp add: left_rotate_def)
  moreover have "lchild (heap s n) = None \<longrightarrow> right_rotate (Some n) s = Return () s"
    by (simp add: right_rotate_def)
  moreover have "left_rotate None s = Fail InvalidArgument s"
    "right_rotate None s = Fail InvalidArgument s" "transplant None v s = Fail InvalidArgument s"
    by (simp_all add: left_rotate_def right_rotate_def transplant_def)
  ultimately show ?thesis
    using left_rotate_Some right_rotate_Some transplant_Some by blast
qed

theorem rotate_transplant_null_check_witness:
  "left_rotate None black_leaf_tree = Fail InvalidArgument black_leaf_tree
   \<and> rchild (heap black_leaf_tree 1) = None
   \<and> left_rotate (Some 1) black_leaf_tree = Return () black_leaf_tree
   \<and> lchild (heap black_leaf_tree 1) = None
   \<and> right_rotate (Some 1) black_leaf_tree = Return () black_leaf_tree"
proof -
  have "rchild (heap black_leaf_tree 1) = None" "lchild (heap black_leaf_tree 1) = None"
    by (simp_all add: black_leaf_tree_def)
  then show ?thesis
    using rotate_transplant_null_check [of black_leaf_tree None 1] by simp
qed

section \<open>Insertion\<close>

text \<open>
  C3 (the code departs from it): a node constructed RED and inserted into the empty
  tree becomes the root and is still RED when \<^verbatim>\<open>insert\<close> returns, for
  \<^verbatim>\<open>insert\<close> returns before it reaches \<^verbatim>\<open>insert_fixup\<close>.
\<close>

theorem insert_empty_root_red:
  "\<exists>s'. insert fuel (Some a) (new_node a k RED empty_tree) = Return () s'
        \<and> root s' = Some a \<and> color (heap s' a) = RED"
  by (simp add: insert_def set_root_def new_node_def empty_tree_def)




section \<open>Membership test of remove\<close>

lemma remove_find_reach:
  "remove_find fuel s n temp = Some r \<Longrightarrow> (r = Some n) = bst_reach s (key (heap s n)) temp n"
proof (induction fuel s n temp rule: remove_find.induct)
  case (1 s node temp)
  then show ?case by simp
next
  case (2 fuel s node temp)
  show ?case
  proof (cases temp)
    case None
    with 2 show ?thesis by (auto elim: bst_reach.cases)
  next
    case (Some t)
    show ?thesis
    proof (cases "t = node")
      case True
      with 2 Some show ?thesis by (auto intro: bst_reach.here)
    next
      case False
      show ?thesis
      proof (cases "key (heap s node) < key (heap s t)")
        case True
        with 2 Some False
        have "(r = Some node) = bst_reach s (key (heap s node)) (lchild (heap s t)) node"
          by simp
        also have "\<dots> = bst_reach s (key (heap s node)) (Some t) node"
          using False True by (auto intro: bst_reach.left elim: bst_reach.cases)
        finally show ?thesis using Some by simp
      next
        case k: False
        with 2 Some False
        have "(r = Some node) = bst_reach s (key (heap s node)) (rchild (heap s t)) node"
          by simp
        also have "\<dots> = bst_reach s (key (heap s node)) (Some t) node"
          using False k by (auto intro: bst_reach.right elim: bst_reach.cases)
        finally show ?thesis using Some by simp
      qed
    qed
  qed
qed

lemma no_raise_simps [simp]:
  "no_raise (Return v s)" "no_raise (Fail e s) = (e \<noteq> InvalidArgument)" "no_raise Diverge"
  by (auto simp: no_raise_def split: error.splits)

lemma no_raise_and_then:
  "no_raise r \<Longrightarrow> (\<And>v s. no_raise (f v s)) \<Longrightarrow> no_raise (and_then r f)"
  by (cases r) (auto simp: and_then_def)

lemma no_raise_deref:
  "(\<And>a. p = Some a \<Longrightarrow> no_raise (f a)) \<Longrightarrow> no_raise (deref p s f)"
  by (cases p) (auto simp: deref_def)

lemma no_raise_if:
  "(c \<Longrightarrow> no_raise a) \<Longrightarrow> (\<not> c \<Longrightarrow> no_raise b) \<Longrightarrow> no_raise (if c then a else b)"
  by simp

lemma left_rotate_no_raise: "no_raise (left_rotate (Some n) s)"
  using left_rotate_Some[of n s] by auto

lemma right_rotate_no_raise: "no_raise (right_rotate (Some n) s)"
  using right_rotate_Some[of n s] by auto

lemma transplant_no_raise: "no_raise (transplant (Some n) v s)"
  using transplant_Some[of n v s] by auto

lemma successor_no_raise: "no_raise (successor fuel (Some n) s)"
  by (auto simp: successor_def minimum_def split: option.splits)

lemmas no_raise_intros =
  no_raise_and_then no_raise_deref no_raise_if left_rotate_no_raise right_rotate_no_raise
  transplant_no_raise successor_no_raise no_raise_simps(1)

lemmas delete_fixup_blocks =
  delete_fixup_left_case1_def delete_fixup_right_case1_def delete_fixup_case2_def
  delete_fixup_left_case3_def delete_fixup_left_case4_def
  delete_fixup_right_case3_def delete_fixup_right_case4_def
  delete_fixup_left_chain_def delete_fixup_right_chain_def

lemma delete_fixup_left_no_raise: "no_raise (delete_fixup_left x s)"
  unfolding delete_fixup_left_def delete_fixup_blocks Let_def by (intro no_raise_intros)

lemma delete_fixup_right_no_raise: "no_raise (delete_fixup_right x s)"
  unfolding delete_fixup_right_def delete_fixup_blocks Let_def by (intro no_raise_intros)

lemma delete_fixup_no_raise: "no_raise (delete_fixup fuel x s)"
proof (induction fuel arbitrary: x s)
  case 0
  show ?case by simp
next
  case (Suc fuel)
  show ?case
    by (cases x) (auto simp: delete_fixup_iter_def
        intro!: no_raise_and_then Suc delete_fixup_left_no_raise delete_fixup_right_no_raise)
qed

lemma remove_splice_no_raise: "no_raise (remove_splice fuel n s)"
proof -
  have t: "\<And>y v s. y \<noteq> None \<Longrightarrow> no_raise (transplant y v s)"
    using transplant_no_raise by auto
  show ?thesis
    unfolding remove_splice_def Let_def
    by (intro no_raise_intros) (simp_all split: option.split add: t)
qed

text \<open>
  The descent of the membership test ends within as many iterations as bound the depth of
  the tree below the pointer it starts from.
\<close>

lemma tree_of_children:
  "tree_of (Suc d) s (Some t) \<noteq> None
   \<Longrightarrow> tree_of d s (lchild (heap s t)) \<noteq> None \<and> tree_of d s (rchild (heap s t)) \<noteq> None"
  by (auto split: option.splits)

lemma remove_find_returns:
  "tree_of d s p \<noteq> None \<Longrightarrow> remove_find d s n p \<noteq> None"
proof (induction d arbitrary: p)
  case 0
  then show ?case by simp
next
  case (Suc d)
  show ?case
  proof (cases p)
    case None
    then show ?thesis by simp
  next
    case (Some t)
    with Suc.prems have "tree_of d s (lchild (heap s t)) \<noteq> None"
      "tree_of d s (rchild (heap s t)) \<noteq> None"
      using tree_of_children by blast+
    then have "remove_find d s n (lchild (heap s t)) \<noteq> None"
      "remove_find d s n (rchild (heap s t)) \<noteq> None"
      using Suc.IH by blast+
    with Some show ?thesis by simp
  qed
qed

text \<open>
  C5: on a tree whose depth the number of iterations bounds, \<^verbatim>\<open>remove\<close> of a node that
  the key-guided descent from the root does not reach returns the invalid-argument
  failure with the tree as it was; \<^verbatim>\<open>remove\<close> of a node that the descent reaches does
  not raise that failure.
\<close>

theorem remove_raises_iff_unreachable:
  assumes "tree_of fuel s (root s) \<noteq> None"
  shows "(\<not> bst_reach s (key (heap s n)) (root s) n \<longrightarrow>
            remove fuel (Some n) s = Fail InvalidArgument s)
       \<and> (bst_reach s (key (heap s n)) (root s) n \<longrightarrow> no_raise (remove fuel (Some n) s))"
proof -
  from remove_find_returns [OF assms]
  obtain r where r: "remove_find fuel s n (root s) = Some r" by auto
  have e: "(r = Some n) = bst_reach s (key (heap s n)) (root s) n"
    using remove_find_reach[OF r] .
  have "no_raise (and_then (remove_splice fuel n s) (\<lambda>(x, y_color) s1.
          if y_color = BLACK then delete_fixup fuel x s1 else Return () s1))"
    by (intro no_raise_and_then remove_splice_no_raise)
       (auto simp: delete_fixup_no_raise split: prod.splits)
  then show ?thesis using r e by (auto simp: remove_def)
qed

theorem remove_raises_iff_unreachable_witness:
  "tree_of 4 black_leaf_tree (root black_leaf_tree) \<noteq> None
   \<and> bst_reach black_leaf_tree (key (heap black_leaf_tree 4)) (root black_leaf_tree) 4
   \<and> no_raise (remove 4 (Some 4) black_leaf_tree)
   \<and> tree_of 4 (new_node 9 3 RED black_leaf_tree) (root (new_node 9 3 RED black_leaf_tree))
       \<noteq> None
   \<and> \<not> bst_reach (new_node 9 3 RED black_leaf_tree)
         (key (heap (new_node 9 3 RED black_leaf_tree) 9))
         (root (new_node 9 3 RED black_leaf_tree)) 9
   \<and> remove 4 (Some 9) (new_node 9 3 RED black_leaf_tree)
       = Fail InvalidArgument (new_node 9 3 RED black_leaf_tree)"
proof -
  have t: "tree_of 4 black_leaf_tree (root black_leaf_tree) \<noteq> None"
    "tree_of 4 (new_node 9 3 RED black_leaf_tree) (root (new_node 9 3 RED black_leaf_tree))
       \<noteq> None"
    by (simp_all add: fuel_numeral black_leaf_tree_def field_defs)
  have a: "remove_find 4 black_leaf_tree 4 (root black_leaf_tree) = Some (Some 4)"
    by (simp add: fuel_numeral black_leaf_tree_def field_defs)
  have b: "remove_find 4 (new_node 9 3 RED black_leaf_tree) 9
             (root (new_node 9 3 RED black_leaf_tree)) = Some None"
    by (simp add: fuel_numeral black_leaf_tree_def field_defs)
  have c: "bst_reach black_leaf_tree (key (heap black_leaf_tree 4)) (root black_leaf_tree) 4"
    using remove_find_reach [OF a] by simp
  have d: "\<not> bst_reach (new_node 9 3 RED black_leaf_tree)
         (key (heap (new_node 9 3 RED black_leaf_tree) 9))
         (root (new_node 9 3 RED black_leaf_tree)) 9"
    using remove_find_reach [OF b] by simp
  show ?thesis
    using t c d
      remove_raises_iff_unreachable [OF t(1), of 4]
      remove_raises_iff_unreachable [OF t(2), of 9]
    by simp
qed

section \<open>Successor and predecessor\<close>

lemma successor_loop_chain:
  "parent_chain s (c # cs) \<Longrightarrow> proper_links s (c # cs) \<Longrightarrow> length cs < fuel
   \<Longrightarrow> successor_loop fuel s (parent (heap s c)) c = Some (first_left_step s (c # cs))"
proof (induction cs arbitrary: c fuel)
  case Nil
  then obtain f where "fuel = Suc f" by (cases fuel) auto
  with Nil show ?case by simp
next
  case (Cons p cs)
  then obtain f where f: "fuel = Suc f" by (cases fuel) auto
  from Cons.prems have par: "parent (heap s c) = Some p" and ch: "parent_chain s (p # cs)"
    and ex: "(lchild (heap s p) = Some c) \<noteq> (rchild (heap s p) = Some c)"
    and pl: "proper_links s (p # cs)" and len: "length cs < f"
    using f by auto
  show ?case
  proof (cases "rchild (heap s p) = Some c")
    case True
    with ex have "lchild (heap s p) \<noteq> Some c" by simp
    with True par f Cons.IH [OF ch pl len] show ?thesis
      by (simp add: is_right_child_def)
  next
    case False
    with ex have "lchild (heap s p) = Some c" by simp
    with False par f show ?thesis by (simp add: is_right_child_def)
  qed
qed

lemma predecessor_loop_chain:
  "parent_chain s (c # cs) \<Longrightarrow> proper_links s (c # cs) \<Longrightarrow> length cs < fuel
   \<Longrightarrow> predecessor_loop fuel s (parent (heap s c)) c = Some (first_right_step s (c # cs))"
proof (induction cs arbitrary: c fuel)
  case Nil
  then obtain f where "fuel = Suc f" by (cases fuel) auto
  with Nil show ?case by simp
next
  case (Cons p cs)
  then obtain f where f: "fuel = Suc f" by (cases fuel) auto
  from Cons.prems have par: "parent (heap s c) = Some p" and ch: "parent_chain s (p # cs)"
    and ex: "(lchild (heap s p) = Some c) \<noteq> (rchild (heap s p) = Some c)"
    and pl: "proper_links s (p # cs)" and len: "length cs < f"
    using f by auto
  show ?case
  proof (cases "lchild (heap s p) = Some c")
    case True
    with ex have "rchild (heap s p) \<noteq> Some c" by simp
    with True par f Cons.IH [OF ch pl len] show ?thesis
      by (simp add: is_left_child_def)
  next
    case False
    with ex have "rchild (heap s p) = Some c" by simp
    with False par f show ?thesis by (simp add: is_left_child_def)
  qed
qed

text \<open>
  C7: for a node of a tree, with its chain of ancestors up to the root, \<^verbatim>\<open>successor\<close>
  is \<^verbatim>\<open>minimum\<close> of the right child when there is one, and otherwise returns the first
  ancestor reached via a left-child step, or none when the ascent finds no such step;
  \<^verbatim>\<open>predecessor\<close> is the mirror image with the left child, \<^verbatim>\<open>maximum\<close> and
  right-child steps.
\<close>

theorem successor_predecessor_ascent:
  assumes "parent_chain s (n # cs)" and "proper_links s (n # cs)" and "length cs < fuel"
  shows "(\<forall>r. rchild (heap s n) = Some r \<longrightarrow>
            successor fuel (Some n) s = minimum fuel (Some r) s)
       \<and> (rchild (heap s n) = None \<longrightarrow>
            successor fuel (Some n) s = Return (first_left_step s (n # cs)) s)
       \<and> (\<forall>l. lchild (heap s n) = Some l \<longrightarrow>
            predecessor fuel (Some n) s = maximum fuel (Some l) s)
       \<and> (lchild (heap s n) = None \<longrightarrow>
            predecessor fuel (Some n) s = Return (first_right_step s (n # cs)) s)"
  using successor_loop_chain [OF assms] predecessor_loop_chain [OF assms]
  by (simp add: successor_def predecessor_def)

theorem successor_predecessor_ascent_witness:
  "parent_chain black_leaf_tree [4, 3, 2] \<and> proper_links black_leaf_tree [4, 3, 2]
   \<and> rchild (heap black_leaf_tree 4) = None \<and> lchild (heap black_leaf_tree 4) = None
   \<and> successor 3 (Some 4) black_leaf_tree = Return None black_leaf_tree
   \<and> predecessor 3 (Some 4) black_leaf_tree = Return (Some 3) black_leaf_tree
   \<and> parent_chain black_leaf_tree [1, 2] \<and> proper_links black_leaf_tree [1, 2]
   \<and> successor 3 (Some 1) black_leaf_tree = Return (Some 2) black_leaf_tree
   \<and> parent_chain black_leaf_tree [2] \<and> rchild (heap black_leaf_tree 2) = Some 3
   \<and> successor 3 (Some 2) black_leaf_tree = minimum 3 (Some 3) black_leaf_tree"
proof -
  have a: "parent_chain black_leaf_tree [4, 3, 2]" "proper_links black_leaf_tree [4, 3, 2]"
    "parent_chain black_leaf_tree [1, 2]" "proper_links black_leaf_tree [1, 2]"
    "parent_chain black_leaf_tree [2]" "proper_links black_leaf_tree [2]"
    by (simp_all add: black_leaf_tree_def)
  have b: "rchild (heap black_leaf_tree 4) = None" "lchild (heap black_leaf_tree 4) = None"
    "rchild (heap black_leaf_tree 1) = None" "rchild (heap black_leaf_tree 2) = Some 3"
    by (simp_all add: black_leaf_tree_def)
  have c: "first_left_step black_leaf_tree [4, 3, 2] = None"
    "first_right_step black_leaf_tree [4, 3, 2] = Some 3"
    "first_left_step black_leaf_tree [1, 2] = Some 2"
    by (simp_all add: black_leaf_tree_def)
  show ?thesis
    using a b c
      successor_predecessor_ascent [of black_leaf_tree 4 "[3, 2]" 3]
      successor_predecessor_ascent [of black_leaf_tree 1 "[2]" 3]
      successor_predecessor_ascent [of black_leaf_tree 2 "[]" 3]
    by simp
qed

section \<open>Where the code departs from the invariants\<close>

text \<open>
  Once the root is RED, the next insertion below it does not return: \<^verbatim>\<open>insert_fixup\<close>
  enters its loop for the RED parent and reads a field of the grandparent, which the root
  does not have.
\<close>

lemma insert_below_red_root_fails:
  "\<exists>s. run 4 [Insert 2 2 BLACK, Insert 8 8 RED, Remove 2] empty_tree = Return () s
        \<and> tree_of 4 s (root s) = Some (Branch RED Tip 8 Tip)
        \<and> (\<exists>s'. insert 4 (Some 5) (new_node 5 5 RED s) = Fail NullPointerDereference s')"
  by (simp add: exec_simps)

text \<open>
  C2 (the code departs from it): in \<open>black_leaf_tree\<close>, a tree built by four insertions,
  node 1 is a BLACK node without children. The structural part of \<^verbatim>\<open>remove\<close> leaves
  \<open>y_color\<close> at its initial value RED, so \<^verbatim>\<open>remove\<close> returns the spliced tree without
  calling \<^verbatim>\<open>delete_fixup\<close>, and the paths of that tree differ in their number of BLACK
  nodes.
\<close>

theorem remove_black_leaf_y_color:
  "run 4 [Insert 2 2 BLACK, Insert 1 1 RED, Insert 3 3 RED, Insert 4 4 RED] empty_tree
     = Return () black_leaf_tree
   \<and> color (heap black_leaf_tree 1) = BLACK
   \<and> lchild (heap black_leaf_tree 1) = None \<and> rchild (heap black_leaf_tree 1) = None
   \<and> remove_splice 4 1 black_leaf_tree
       = Return (None, RED) (set_lchild 2 None black_leaf_tree)
   \<and> remove 4 (Some 1) black_leaf_tree = Return () (set_lchild 2 None black_leaf_tree)
   \<and> tree_of 4 (set_lchild 2 None black_leaf_tree) (Some 2)
       = Some (Branch BLACK Tip 2 (Branch BLACK Tip 3 (Branch RED Tip 4 Tip)))
   \<and> black_height (Branch BLACK Tip 2 (Branch BLACK Tip 3 (Branch RED Tip 4 Tip))) = None"
proof -
  have "remove_splice 4 1 black_leaf_tree
       = Return (None, RED) (set_lchild 2 None black_leaf_tree)"
    by (simp add: exec_simps black_leaf_tree_def)
  moreover have "remove 4 (Some 1) black_leaf_tree
       = Return () (set_lchild 2 None black_leaf_tree)"
    by (simp add: exec_simps black_leaf_tree_def)
  moreover have "tree_of 4 (set_lchild 2 None black_leaf_tree) (Some 2)
       = Some (Branch BLACK Tip 2 (Branch BLACK Tip 3 (Branch RED Tip 4 Tip)))"
    by (simp add: exec_simps black_leaf_tree_def)
  ultimately show ?thesis
    using run_black_leaf_tree by (simp add: black_leaf_tree_def)
qed

text \<open>
  C1 (the code departs from it): three sequences of insertions and removals from the
  empty tree, each insertion with a fresh node and each removal of a node in the tree,
  after which the tree breaks an invariant. Removing the BLACK root 1 above its only
  child leaves the RED node 2 as root (I2). Removing the BLACK leaf 1 of
  \<open>black_leaf_tree\<close> leaves paths with different numbers of BLACK nodes (I5). The
  third sequence ends with the RED node 1 above its RED child 2 (I4).
\<close>

theorem invariants_broken_by_remove:
  "(\<exists>s. run 4 [Insert 1 1 BLACK, Insert 2 2 RED, Remove 1] empty_tree = Return () s
        \<and> tree_of 4 s (root s) = Some (Branch RED Tip 2 Tip))
   \<and> \<not> rb_invariants (Branch RED Tip 2 Tip)
   \<and> (\<exists>s. run 4 [Insert 2 2 BLACK, Insert 1 1 RED, Insert 3 3 RED, Insert 4 4 RED,
                  Remove 1] empty_tree = Return () s
        \<and> tree_of 4 s (root s)
            = Some (Branch BLACK Tip 2 (Branch BLACK Tip 3 (Branch RED Tip 4 Tip))))
   \<and> \<not> rb_invariants (Branch BLACK Tip 2 (Branch BLACK Tip 3 (Branch RED Tip 4 Tip)))
   \<and> (\<exists>s. run 4 [Insert 5 5 BLACK, Insert 4 4 RED, Insert 6 6 RED, Insert 3 3 RED, Remove 4,
                  Insert 1 1 RED, Insert 2 2 RED, Remove 3] empty_tree = Return () s
        \<and> tree_of 4 s (root s)
            = Some (Branch BLACK (Branch RED Tip 1 (Branch RED Tip 2 Tip)) 5
                      (Branch BLACK Tip 6 Tip)))
   \<and> \<not> rb_invariants (Branch BLACK (Branch RED Tip 1 (Branch RED Tip 2 Tip)) 5
                          (Branch BLACK Tip 6 Tip))"
proof -
  have "\<exists>s. run 4 [Insert 1 1 BLACK, Insert 2 2 RED, Remove 1] empty_tree = Return () s
        \<and> tree_of 4 s (root s) = Some (Branch RED Tip 2 Tip)"
    by (simp add: exec_simps)
  moreover have "\<exists>s. run 4 [Insert 2 2 BLACK, Insert 1 1 RED, Insert 3 3 RED, Insert 4 4 RED,
                  Remove 1] empty_tree = Return () s
        \<and> tree_of 4 s (root s)
            = Some (Branch BLACK Tip 2 (Branch BLACK Tip 3 (Branch RED Tip 4 Tip)))"
    by (simp add: exec_simps)
  moreover have "\<exists>s. run 4 [Insert 5 5 BLACK, Insert 4 4 RED, Insert 6 6 RED, Insert 3 3 RED,
                  Remove 4, Insert 1 1 RED, Insert 2 2 RED, Remove 3] empty_tree = Return () s
        \<and> tree_of 4 s (root s)
            = Some (Branch BLACK (Branch RED Tip 1 (Branch RED Tip 2 Tip)) 5
                      (Branch BLACK Tip 6 Tip))"
    by (simp add: exec_simps)
  moreover have "\<not> rb_invariants (Branch RED Tip 2 Tip)"
    "\<not> rb_invariants (Branch BLACK Tip 2 (Branch BLACK Tip 3 (Branch RED Tip 4 Tip)))"
    "\<not> rb_invariants (Branch BLACK (Branch RED Tip 1 (Branch RED Tip 2 Tip)) 5
                          (Branch BLACK Tip 6 Tip))"
    by (simp_all add: rb_invariants_def)
  ultimately show ?thesis by blast
qed

section \<open>The cases of the deletion fixup\<close>

text \<open>
  The conditions of Cases 3 and 4 repeat, behind \<^verbatim>\<open>else\<close>, the condition of Case 2,
  so their blocks never run: the chain is the block of Case 2 for a present BLACK sibling
  and does nothing otherwise.
\<close>

lemma delete_fixup_chain_dead_cases:
  "delete_fixup_left_chain node w s
     = (if is_color s w BLACK then delete_fixup_case2 node w s else Return (Some node) s)"
  "delete_fixup_right_chain node w s
     = (if is_color s w BLACK then delete_fixup_case2 node w s else Return (Some node) s)"
  by (simp_all add: delete_fixup_left_chain_def delete_fixup_right_chain_def)

text \<open>
  Case 1 is followed, in the same pass, by the chain of Cases 2 to 4. In \<open>case1_tree\<close>,
  the tree of the source's own drawing, the pass at node 1 runs the block of Case 1
  (giving \<open>case1_tree_rotated\<close>, sibling read again: node 3) and then the block of Case 2
  (node 3 becomes RED, the pass returns the parent 2).
\<close>

lemma delete_fixup_case1_then_case2:
  "is_left_child case1_tree 1 \<and> parent (heap case1_tree 1) = Some 2
   \<and> rchild (heap case1_tree 2) = Some 4 \<and> color (heap case1_tree 4) = RED
   \<and> delete_fixup_left_case1 2 (Some 4) case1_tree = Return (Some 3) case1_tree_rotated
   \<and> root case1_tree = Some 2 \<and> root case1_tree_rotated = Some 4
   \<and> color (heap case1_tree_rotated 3) = BLACK
   \<and> delete_fixup_case2 1 (Some 3) case1_tree_rotated
       = Return (Some 2) (set_color 3 RED case1_tree_rotated)
   \<and> delete_fixup_iter 1 case1_tree = Return (Some 2) (set_color 3 RED case1_tree_rotated)"
proof -
  have "delete_fixup_left_case1 2 (Some 4) case1_tree = Return (Some 3) case1_tree_rotated"
    by (simp add: exec_simps case1_tree_def case1_tree_rotated_def)
  moreover have "delete_fixup_case2 1 (Some 3) case1_tree_rotated
       = Return (Some 2) (set_color 3 RED case1_tree_rotated)"
    by (simp add: exec_simps case1_tree_rotated_def)
  moreover have "delete_fixup_iter 1 case1_tree
       = Return (Some 2) (set_color 3 RED case1_tree_rotated)"
    by (simp add: exec_simps case1_tree_def case1_tree_rotated_def)
  moreover have "is_left_child case1_tree 1" "parent (heap case1_tree 1) = Some 2"
    "rchild (heap case1_tree 2) = Some 4" "color (heap case1_tree 4) = RED"
    "root case1_tree = Some 2" "root case1_tree_rotated = Some 4"
    "color (heap case1_tree_rotated 3) = BLACK"
    by (simp_all add: case1_tree_def case1_tree_rotated_def is_left_child_def)
  ultimately show ?thesis by simp
qed

text \<open>
  A pass can also run no case at all. In \<open>absent_sibling_spliced\<close>, which insertions and
  removals followed by the structural part of removing node 6 build, node 9 is a BLACK
  left child whose parent 10 has no right child: the pass changes nothing and returns
  node 9 again, so the loop of \<^verbatim>\<open>delete_fixup\<close> does not end, whatever the number of
  iterations it is given.
\<close>

lemma run_absent_sibling_tree:
  "run 5 [Insert 9 9 BLACK, Insert 10 10 RED, Insert 7 7 RED, Remove 7, Insert 11 11 RED,
          Insert 8 8 RED, Insert 4 4 RED, Insert 1 1 RED, Remove 4, Insert 6 6 RED,
          Insert 3 3 RED, Remove 11, Insert 2 2 RED, Insert 5 5 RED, Remove 3, Remove 5]
     empty_tree = Return () absent_sibling_tree"
  by (simp add: exec_simps absent_sibling_tree_def)

lemma splice_absent_sibling_tree:
  "remove_splice 5 6 absent_sibling_tree = Return (Some 9, BLACK) absent_sibling_spliced"
  by (simp add: exec_simps absent_sibling_tree_def absent_sibling_spliced_def)

lemma delete_fixup_idle_pass:
  "delete_fixup_iter 9 absent_sibling_spliced = Return (Some 9) absent_sibling_spliced"
  by (simp add: exec_simps absent_sibling_spliced_def)

lemma delete_fixup_absent_sibling_diverges:
  "delete_fixup fuel (Some 9) absent_sibling_spliced = Diverge"
proof (induction fuel)
  case 0
  show ?case by simp
next
  case (Suc fuel)
  have "Some 9 \<noteq> root absent_sibling_spliced \<and> color (heap absent_sibling_spliced 9) = BLACK"
    by (simp add: absent_sibling_spliced_def)
  then show ?case using Suc delete_fixup_idle_pass by (simp add: and_then_def)
qed

lemma remove_absent_sibling_diverges:
  "bst_reach absent_sibling_tree (key (heap absent_sibling_tree 6)) (root absent_sibling_tree) 6
   \<and> remove 5 (Some 6) absent_sibling_tree = Diverge"
proof -
  have f: "remove_find 5 absent_sibling_tree 6 (root absent_sibling_tree) = Some (Some 6)"
    by (simp add: fuel_numeral absent_sibling_tree_def)
  then have "remove 5 (Some 6) absent_sibling_tree = Diverge"
    using splice_absent_sibling_tree delete_fixup_absent_sibling_diverges [of 5]
    by (simp add: remove_def and_then_def)
  then show ?thesis using remove_find_reach [OF f] by simp
qed

text \<open>
  C4 (the code departs from it): two passes through the loop of \<^verbatim>\<open>delete_fixup\<close>, in
  trees that insertions and removals build. In \<open>red_nephew_spliced\<close> the sibling 1 of
  node 6 is BLACK and has the RED child 2; the pass recolours the sibling RED and returns
  the parent, which is Case 2, and \<^verbatim>\<open>remove\<close> returns a tree with a RED node above a
  RED child. In \<open>red_sibling_spliced\<close> the sibling 1 of node 7 is RED; a single pass
  rotates (node 1 ends above node 5) and also recolours node 1 RED and returns the parent,
  with node 1 still taken as the sibling although node 5 has no left child after the
  rotation.
\<close>

theorem delete_fixup_case2_and_stale_sibling:
  "run 4 [Insert 5 5 BLACK, Insert 4 4 RED, Insert 6 6 RED, Insert 3 3 RED, Remove 4,
          Insert 1 1 RED, Insert 2 2 RED] empty_tree = Return () red_nephew_tree
   \<and> remove_splice 4 3 red_nephew_tree = Return (Some 6, BLACK) red_nephew_spliced
   \<and> parent (heap red_nephew_spliced 6) = Some 5
   \<and> lchild (heap red_nephew_spliced 5) = Some 1
   \<and> color (heap red_nephew_spliced 1) = BLACK
   \<and> rchild (heap red_nephew_spliced 1) = Some 2
   \<and> color (heap red_nephew_spliced 2) = RED
   \<and> delete_fixup_iter 6 red_nephew_spliced
       = Return (Some 5) (set_color 1 RED red_nephew_spliced)
   \<and> remove 4 (Some 3) red_nephew_tree = Return () (set_color 1 RED red_nephew_spliced)
   \<and> tree_of 4 (set_color 1 RED red_nephew_spliced) (Some 5)
       = Some (Branch BLACK (Branch RED Tip 1 (Branch RED Tip 2 Tip)) 5 (Branch BLACK Tip 6 Tip))
   \<and> \<not> no_red_red (Branch BLACK (Branch RED Tip 1 (Branch RED Tip 2 Tip)) 5
                        (Branch BLACK Tip 6 Tip))
   \<and> and_then
        (run 4 [Insert 5 5 BLACK, Insert 2 2 RED, Insert 7 7 RED, Insert 4 4 RED, Remove 2,
                Insert 3 3 RED, Insert 1 1 RED, Remove 3] empty_tree)
        (\<lambda>_ s. remove_splice 4 4 s)
       = Return (Some 7, BLACK) red_sibling_spliced
   \<and> parent (heap red_sibling_spliced 7) = Some 5
   \<and> lchild (heap red_sibling_spliced 5) = Some 1
   \<and> color (heap red_sibling_spliced 1) = RED
   \<and> (\<exists>s'. delete_fixup_iter 7 red_sibling_spliced = Return (Some 5) s'
            \<and> root s' = Some 1 \<and> rchild (heap s' 1) = Some 5 \<and> parent (heap s' 5) = Some 1
            \<and> lchild (heap s' 5) = None \<and> rchild (heap s' 5) = Some 7
            \<and> color (heap s' 1) = RED \<and> color (heap s' 5) = RED)"
proof -
  have "delete_fixup_iter 6 red_nephew_spliced
       = Return (Some 5) (set_color 1 RED red_nephew_spliced)"
    by (simp add: exec_simps red_nephew_spliced_def)
  moreover have "remove 4 (Some 3) red_nephew_tree
       = Return () (set_color 1 RED red_nephew_spliced)"
    by (simp add: exec_simps red_nephew_tree_def red_nephew_spliced_def)
  moreover have "tree_of 4 (set_color 1 RED red_nephew_spliced) (Some 5)
       = Some (Branch BLACK (Branch RED Tip 1 (Branch RED Tip 2 Tip)) 5 (Branch BLACK Tip 6 Tip))"
    by (simp add: exec_simps red_nephew_spliced_def)
  moreover have "\<exists>s'. delete_fixup_iter 7 red_sibling_spliced = Return (Some 5) s'
            \<and> root s' = Some 1 \<and> rchild (heap s' 1) = Some 5 \<and> parent (heap s' 5) = Some 1
            \<and> lchild (heap s' 5) = None \<and> rchild (heap s' 5) = Some 7
            \<and> color (heap s' 1) = RED \<and> color (heap s' 5) = RED"
    by (simp add: exec_simps red_sibling_spliced_def)
  moreover have "parent (heap red_nephew_spliced 6) = Some 5"
    "lchild (heap red_nephew_spliced 5) = Some 1" "color (heap red_nephew_spliced 1) = BLACK"
    "rchild (heap red_nephew_spliced 1) = Some 2" "color (heap red_nephew_spliced 2) = RED"
    by (simp_all add: red_nephew_spliced_def)
  moreover have "parent (heap red_sibling_spliced 7) = Some 5"
    "lchild (heap red_sibling_spliced 5) = Some 1" "color (heap red_sibling_spliced 1) = RED"
    by (simp_all add: red_sibling_spliced_def)
  ultimately show ?thesis
    using run_red_nephew_tree splice_red_nephew_tree splice_red_sibling_tree by simp
qed

section \<open>What remove leaves in the removed node\<close>

text \<open>
  The facts behind C10, in four steps: a tree with proper linkage has no cycle among its
  nodes; a rotation keeps the linkage and the set of nodes in the tree and writes to no
  other node, hence so does \<^verbatim>\<open>delete_fixup\<close>; the structural part of \<^verbatim>\<open>remove\<close>
  takes the node out of the tree, keeps the linkage of the rest and leaves the node's
  links as the claim says; \<^verbatim>\<open>remove\<close> is the one followed by the other.
\<close>

subsection \<open>Linkage and cycles\<close>

lemma wf_rootD: "wf_tree s \<Longrightarrow> root s = Some a \<Longrightarrow> parent (heap s a) = None"
  by (simp add: wf_tree_def)

lemma wf_leftD: "wf_tree s \<Longrightarrow> a \<in> reach s \<Longrightarrow> lchild (heap s a) = Some c \<Longrightarrow> parent (heap s c) = Some a"
  by (simp add: wf_tree_def)

lemma wf_rightD: "wf_tree s \<Longrightarrow> a \<in> reach s \<Longrightarrow> rchild (heap s a) = Some c \<Longrightarrow> parent (heap s c) = Some a"
  by (simp add: wf_tree_def)

lemma wf_sidesD: "wf_tree s \<Longrightarrow> a \<in> reach s \<Longrightarrow> lchild (heap s a) = Some c \<Longrightarrow> rchild (heap s a) \<noteq> Some c"
  by (simp add: wf_tree_def)

lemma wf_kidD: "wf_tree s \<Longrightarrow> a \<in> reach s \<Longrightarrow> (a, c) \<in> kid s \<Longrightarrow> parent (heap s c) = Some a"
  by (auto simp: kid_def dest: wf_leftD wf_rightD)

lemma reach_kid: "a \<in> reach s \<Longrightarrow> (a, c) \<in> kid s \<Longrightarrow> c \<in> reach s"
  by (auto simp: kid_def intro: reach.left reach.right)

lemma reach_kids: "(a, c) \<in> (kid s)\<^sup>* \<Longrightarrow> a \<in> reach s \<Longrightarrow> c \<in> reach s"
  by (induction rule: rtrancl_induct) (auto intro: reach_kid)

lemma reach_cases:
  "a \<in> reach s \<Longrightarrow> root s = Some a \<or> (\<exists>p \<in> reach s. (p, a) \<in> kid s)"
  by (induction rule: reach.induct) (auto simp: kid_def)

lemma reach_parent:
  assumes "wf_tree s" "a \<in> reach s" "parent (heap s a) = Some p"
  shows "p \<in> reach s \<and> (p, a) \<in> kid s"
proof -
  from reach_cases[OF assms(2)] show ?thesis
  proof
    assume "root s = Some a"
    with assms show ?thesis by (auto dest: wf_rootD)
  next
    assume "\<exists>p \<in> reach s. (p, a) \<in> kid s"
    then obtain q where q: "q \<in> reach s" "(q, a) \<in> kid s" by auto
    with assms have "q = p" by (auto dest: wf_kidD)
    with q show ?thesis by simp
  qed
qed

lemma reach_no_parent:
  assumes "wf_tree s" "a \<in> reach s" "parent (heap s a) = None"
  shows "root s = Some a"
  using reach_cases[OF assms(2)] assms by (auto dest: wf_kidD)

lemma acyclic_reach:
  assumes wf: "wf_tree s"
  shows "a \<in> reach s \<Longrightarrow> (a, a) \<notin> (kid s)\<^sup>+"
proof (induction rule: reach.induct)
  case (root a)
  show ?case
  proof
    assume "(a, a) \<in> (kid s)\<^sup>+"
    then obtain b where b: "(a, b) \<in> (kid s)\<^sup>*" "(b, a) \<in> kid s"
      by (auto dest: tranclD2)
    have "a \<in> reach s" using root by (rule reach.root)
    with b have "b \<in> reach s" by (auto intro: reach_kids)
    with b wf have "parent (heap s a) = Some b" by (auto dest: wf_kidD)
    with root wf show False by (auto dest: wf_rootD)
  qed
next
  case (left a c)
  then have k: "(a, c) \<in> kid s" by (simp add: kid_def)
  show ?case
  proof
    assume "(c, c) \<in> (kid s)\<^sup>+"
    then obtain b where b: "(c, b) \<in> (kid s)\<^sup>*" "(b, c) \<in> kid s"
      by (auto dest: tranclD2)
    have "c \<in> reach s" using left k by (auto intro: reach_kid)
    with b have "b \<in> reach s" by (auto intro: reach_kids)
    with b wf have "parent (heap s c) = Some b" by (auto dest: wf_kidD)
    moreover have "parent (heap s c) = Some a" using wf left k by (auto dest: wf_kidD)
    ultimately have "b = a" by simp
    with b k have "(a, a) \<in> (kid s)\<^sup>+" by auto
    with left show False by simp
  qed
next
  case (right a c)
  then have k: "(a, c) \<in> kid s" by (simp add: kid_def)
  show ?case
  proof
    assume "(c, c) \<in> (kid s)\<^sup>+"
    then obtain b where b: "(c, b) \<in> (kid s)\<^sup>*" "(b, c) \<in> kid s"
      by (auto dest: tranclD2)
    have "c \<in> reach s" using right k by (auto intro: reach_kid)
    with b have "b \<in> reach s" by (auto intro: reach_kids)
    with b wf have "parent (heap s c) = Some b" by (auto dest: wf_kidD)
    moreover have "parent (heap s c) = Some a" using wf right k by (auto dest: wf_kidD)
    ultimately have "b = a" by simp
    with b k have "(a, a) \<in> (kid s)\<^sup>+" by auto
    with right show False by simp
  qed
qed

lemma kid1_neq: "wf_tree s \<Longrightarrow> a \<in> reach s \<Longrightarrow> (a, b) \<in> kid s \<Longrightarrow> a \<noteq> b"
  using acyclic_reach by (metis r_into_trancl')

lemma kid2_neq: "wf_tree s \<Longrightarrow> a \<in> reach s \<Longrightarrow> (a, b) \<in> kid s \<Longrightarrow> (b, c) \<in> kid s \<Longrightarrow> a \<noteq> c"
  using acyclic_reach by (metis r_into_trancl' trancl_trans)

lemma kid3_neq: "wf_tree s \<Longrightarrow> a \<in> reach s \<Longrightarrow> (a, b) \<in> kid s \<Longrightarrow> (b, c) \<in> kid s \<Longrightarrow> (c, d) \<in> kid s \<Longrightarrow> a \<noteq> d"
  using acyclic_reach by (metis r_into_trancl' trancl_trans)

subsection \<open>Rotations\<close>

text \<open>
  The links after a rotation, written out; the side conditions say that the nodes
  involved are different nodes, which holds in a tree with proper linkage.
\<close>

lemma setter_simps:
  "root (set_root q s) = q" "heap (set_root q s) = heap s"
  "root (set_color a c s) = root s" "root (set_parent a q s) = root s"
  "root (set_lchild a q s) = root s" "root (set_rchild a q s) = root s"
  "heap (set_color a c s) b = (if b = a then (heap s a)\<lparr>color := c\<rparr> else heap s b)"
  "heap (set_parent a q s) b = (if b = a then (heap s a)\<lparr>parent := q\<rparr> else heap s b)"
  "heap (set_lchild a q s) b = (if b = a then (heap s a)\<lparr>lchild := q\<rparr> else heap s b)"
  "heap (set_rchild a q s) b = (if b = a then (heap s a)\<lparr>rchild := q\<rparr> else heap s b)"
  by (simp_all add: set_root_def set_color_def set_parent_def set_lchild_def set_rchild_def)

lemma left_rotate_links:
  assumes r: "rchild (heap s n) = Some r"
    and d: "n \<noteq> r" "parent (heap s n) \<noteq> Some r" "parent (heap s n) \<noteq> Some n"
      "lchild (heap s r) \<noteq> Some n" "lchild (heap s r) \<noteq> Some r"
      "lchild (heap s r) = None \<or> lchild (heap s r) \<noteq> parent (heap s n)"
  shows "\<exists>s'. left_rotate (Some n) s = Return () s'
     \<and> root s' = (if parent (heap s n) = None then Some r else root s)
     \<and> (\<forall>a. lchild (heap s' a) =
           (if a = r then Some n
            else if parent (heap s n) = Some a \<and> lchild (heap s a) = Some n then Some r
            else lchild (heap s a)))
     \<and> (\<forall>a. rchild (heap s' a) =
           (if a = n then lchild (heap s r)
            else if parent (heap s n) = Some a \<and> rchild (heap s a) = Some n then Some r
            else rchild (heap s a)))
     \<and> (\<forall>a. parent (heap s' a) =
           (if a = n then Some r
            else if a = r then parent (heap s n)
            else if lchild (heap s r) = Some a then Some n
            else parent (heap s a)))
     \<and> (\<forall>a. color (heap s' a) = color (heap s a))
     \<and> (\<forall>a. a \<noteq> n \<and> a \<noteq> r \<and> parent (heap s n) \<noteq> Some a \<and> lchild (heap s r) \<noteq> Some a
            \<longrightarrow> heap s' a = heap s a)"
proof (cases "parent (heap s n)")
  case None
  show ?thesis
  proof (cases "lchild (heap s r)")
    case n2: None
    show ?thesis using r d None n2
      by (simp add: left_rotate_def Let_def setter_simps is_left_child_def is_right_child_def)
  next
    case (Some lr)
    show ?thesis using r d None Some
      by (simp add: left_rotate_def Let_def setter_simps is_left_child_def is_right_child_def)
  qed
next
  case (Some p)
  show ?thesis
  proof (cases "lchild (heap s r)")
    case n2: None
    show ?thesis using r d Some n2
      by (simp add: left_rotate_def Let_def setter_simps is_left_child_def is_right_child_def)
  next
    case s2: (Some lr)
    show ?thesis using r d Some s2
      by (simp add: left_rotate_def Let_def setter_simps is_left_child_def is_right_child_def)
  qed
qed

lemma left_rotate_wf:
  assumes wf: "wf_tree s" and n: "n \<in> reach s" and res: "left_rotate (Some n) s = Return () s'"
  shows "wf_tree s' \<and> reach s' = reach s
       \<and> (\<forall>a. a \<notin> reach s \<longrightarrow> heap s' a = heap s a)
       \<and> (\<forall>a. color (heap s' a) = color (heap s a))"
proof (cases "rchild (heap s n)")
  case None
  with res have "s' = s" by (simp add: left_rotate_def)
  with wf show ?thesis by simp
next
  case (Some r)
  then have nr: "(n, r) \<in> kid s" by (simp add: kid_def)
  then have rr: "r \<in> reach s" using n by (rule reach_kid[rotated])
  have pk: "\<And>p. parent (heap s n) = Some p \<Longrightarrow> p \<in> reach s \<and> (p, n) \<in> kid s"
    using reach_parent[OF wf n] by auto
  have lk: "\<And>c. lchild (heap s r) = Some c \<Longrightarrow> (r, c) \<in> kid s"
    by (simp add: kid_def)
  have d1: "n \<noteq> r" using kid1_neq[OF wf n nr] .
  have d2: "parent (heap s n) \<noteq> Some r"
    using pk kid2_neq[OF wf n nr] by auto
  have d3: "parent (heap s n) \<noteq> Some n"
    using pk kid1_neq[OF wf n] by auto
  have d4: "lchild (heap s r) \<noteq> Some n"
    using lk kid2_neq[OF wf n nr] by auto
  have d5: "lchild (heap s r) \<noteq> Some r"
    using lk kid1_neq[OF wf rr] by auto
  have d6: "lchild (heap s r) = None \<or> lchild (heap s r) \<noteq> parent (heap s n)"
  proof (cases "lchild (heap s r)")
    case None then show ?thesis by simp
  next
    case (Some c)
    show ?thesis
    proof (cases "parent (heap s n)")
      case None with Some show ?thesis by simp
    next
      case p: (Some p)
      have "p \<noteq> c" using kid3_neq[of s p n r c] wf pk[OF p] nr lk[OF Some] by auto
      with Some p show ?thesis by simp
    qed
  qed
  from left_rotate_links[OF Some d1 d2 d3 d4 d5 d6] res
  have root': "root s' = (if parent (heap s n) = None then Some r else root s)"
    and L': "\<And>a. lchild (heap s' a) =
           (if a = r then Some n
            else if parent (heap s n) = Some a \<and> lchild (heap s a) = Some n then Some r
            else lchild (heap s a))"
    and R': "\<And>a. rchild (heap s' a) =
           (if a = n then lchild (heap s r)
            else if parent (heap s n) = Some a \<and> rchild (heap s a) = Some n then Some r
            else rchild (heap s a))"
    and P': "\<And>a. parent (heap s' a) =
           (if a = n then Some r
            else if a = r then parent (heap s n)
            else if lchild (heap s r) = Some a then Some n
            else parent (heap s a))"
    and C': "\<And>a. color (heap s' a) = color (heap s a)"
    and F': "\<And>a. a \<noteq> n \<Longrightarrow> a \<noteq> r \<Longrightarrow> parent (heap s n) \<noteq> Some a \<Longrightarrow> lchild (heap s r) \<noteq> Some a
            \<Longrightarrow> heap s' a = heap s a"
    by auto
  have sub: "a \<in> reach s" if "a \<in> reach s'" for a
    using that
  proof (induction rule: reach.induct)
    case (root a)
    then show ?case using root' rr by (auto split: if_splits intro: reach.root)
  next
    case (left a c)
    then show ?case using L' n rr pk by (auto split: if_splits intro: reach.left)
  next
    case (right a c)
    then show ?case using R' n rr pk by (auto split: if_splits intro: reach.right reach.left)
  qed
  have sup: "a \<in> reach s' \<and> (a = n \<longrightarrow> r \<in> reach s')" if "a \<in> reach s" for a
    using that
  proof (induction rule: reach.induct)
    case (root a)
    show ?case
    proof (cases "a = n")
      case True
      with root wf have "parent (heap s n) = None" by (auto dest: wf_rootD)
      then have "r \<in> reach s'" using root' by (auto intro: reach.root)
      moreover from this have "n \<in> reach s'" using L' by (auto intro: reach.left)
      ultimately show ?thesis using True by simp
    next
      case False
      with root wf have "parent (heap s n) \<noteq> None"
        using reach_no_parent[OF wf n] by auto
      with root root' False show ?thesis by (auto intro: reach.root)
    qed
  next
    case (left a c)
    then have ac: "parent (heap s c) = Some a" using wf
      by (auto dest: wf_leftD)
    show ?case
    proof (cases "a = r")
      case True
      then have "n \<in> reach s'" using left L' by (auto intro: reach.left)
      then have "c \<in> reach s'" using R' left True by (auto intro: reach.right)
      moreover have "c \<noteq> n" using d4 left True by auto
      ultimately show ?thesis by simp
    next
      case False
      show ?thesis
      proof (cases "c = n")
        case True
        then have "lchild (heap s' a) = Some r" using L' left ac False by auto
        then have "r \<in> reach s'" using left by (auto intro: reach.left)
        moreover from this have "n \<in> reach s'" using L' by (auto intro: reach.left)
        ultimately show ?thesis using True by simp
      next
        case c: False
        then have "lchild (heap s' a) = Some c" using L' left False by auto
        then show ?thesis using left c by (auto intro: reach.left)
      qed
    qed
  next
    case (right a c)
    then have ac: "parent (heap s c) = Some a" using wf
      by (auto dest: wf_rightD)
    show ?case
    proof (cases "a = n")
      case True
      then have "c = r" using right Some by simp
      moreover have "r \<in> reach s'" using right True by simp
      ultimately show ?thesis using d1 by simp
    next
      case False
      show ?thesis
      proof (cases "c = n")
        case True
        then have "rchild (heap s' a) = Some r" using R' right ac False by auto
        then have "r \<in> reach s'" using right by (auto intro: reach.right)
        moreover from this have "n \<in> reach s'" using L' by (auto intro: reach.left)
        ultimately show ?thesis using True by simp
      next
        case c: False
        then have "rchild (heap s' a) = Some c" using R' right False by auto
        then show ?thesis using right c by (auto intro: reach.right)
      qed
    qed
  qed
  have eq: "reach s' = reach s" using sub sup by auto
  have frame: "\<forall>a. a \<notin> reach s \<longrightarrow> heap s' a = heap s a"
    using F' n rr pk lk reach_kid[OF rr] by (metis option.exhaust)
  have wl: "\<And>a c. a \<in> reach s \<Longrightarrow> lchild (heap s a) = Some c \<Longrightarrow> parent (heap s c) = Some a"
    using wf by (auto dest: wf_leftD)
  have wr: "\<And>a c. a \<in> reach s \<Longrightarrow> rchild (heap s a) = Some c \<Longrightarrow> parent (heap s c) = Some a"
    using wf by (auto dest: wf_rightD)
  have ws: "\<And>a c. a \<in> reach s \<Longrightarrow> lchild (heap s a) = Some c \<Longrightarrow> rchild (heap s a) \<noteq> Some c"
    using wf by (auto dest: wf_sidesD)
  have pn: "parent (heap s r) = Some n" using wr[OF n Some] .
  have w1: "\<forall>a. root s' = Some a \<longrightarrow> parent (heap s' a) = None"
    using root' P' wf pn d1 wl[OF rr] by (auto split: if_splits dest: wf_rootD)
  have w2: "\<forall>a \<in> reach s'. \<forall>c. lchild (heap s' a) = Some c \<longrightarrow>
             parent (heap s' c) = Some a \<and> rchild (heap s' a) \<noteq> Some c"
    unfolding eq
    by (smt (verit, best) L' R' P' Some option.inject pn rr wl wr ws)
  have w3: "\<forall>a \<in> reach s'. \<forall>c. rchild (heap s' a) = Some c \<longrightarrow> parent (heap s' c) = Some a"
    unfolding eq
    by (smt (verit, best) L' R' P' Some option.inject pn rr n d1 d4 wl wr ws)
  show ?thesis using w1 w2 w3 eq frame C' by (simp add: wf_tree_def)
qed

lemma right_rotate_links:
  assumes r: "lchild (heap s n) = Some r"
    and d: "n \<noteq> r" "parent (heap s n) \<noteq> Some r" "parent (heap s n) \<noteq> Some n"
      "rchild (heap s r) \<noteq> Some n" "rchild (heap s r) \<noteq> Some r"
      "rchild (heap s r) = None \<or> rchild (heap s r) \<noteq> parent (heap s n)"
  shows "\<exists>s'. right_rotate (Some n) s = Return () s'
     \<and> root s' = (if parent (heap s n) = None then Some r else root s)
     \<and> (\<forall>a. rchild (heap s' a) =
           (if a = r then Some n
            else if parent (heap s n) = Some a \<and> rchild (heap s a) = Some n then Some r
            else rchild (heap s a)))
     \<and> (\<forall>a. lchild (heap s' a) =
           (if a = n then rchild (heap s r)
            else if parent (heap s n) = Some a \<and> lchild (heap s a) = Some n then Some r
            else lchild (heap s a)))
     \<and> (\<forall>a. parent (heap s' a) =
           (if a = n then Some r
            else if a = r then parent (heap s n)
            else if rchild (heap s r) = Some a then Some n
            else parent (heap s a)))
     \<and> (\<forall>a. color (heap s' a) = color (heap s a))
     \<and> (\<forall>a. a \<noteq> n \<and> a \<noteq> r \<and> parent (heap s n) \<noteq> Some a \<and> rchild (heap s r) \<noteq> Some a
            \<longrightarrow> heap s' a = heap s a)"
proof (cases "parent (heap s n)")
  case None
  show ?thesis
  proof (cases "rchild (heap s r)")
    case n2: None
    show ?thesis using r d None n2
      by (simp add: right_rotate_def Let_def setter_simps is_left_child_def is_right_child_def)
  next
    case (Some lr)
    show ?thesis using r d None Some
      by (simp add: right_rotate_def Let_def setter_simps is_left_child_def is_right_child_def)
  qed
next
  case (Some p)
  show ?thesis
  proof (cases "rchild (heap s r)")
    case n2: None
    show ?thesis using r d Some n2
      by (simp add: right_rotate_def Let_def setter_simps is_left_child_def is_right_child_def)
  next
    case s2: (Some lr)
    show ?thesis using r d Some s2
      by (simp add: right_rotate_def Let_def setter_simps is_left_child_def is_right_child_def)
  qed
qed

lemma right_rotate_wf:
  assumes wf: "wf_tree s" and n: "n \<in> reach s" and res: "right_rotate (Some n) s = Return () s'"
  shows "wf_tree s' \<and> reach s' = reach s
       \<and> (\<forall>a. a \<notin> reach s \<longrightarrow> heap s' a = heap s a)
       \<and> (\<forall>a. color (heap s' a) = color (heap s a))"
proof (cases "lchild (heap s n)")
  case None
  with res have "s' = s" by (simp add: right_rotate_def)
  with wf show ?thesis by simp
next
  case (Some r)
  then have nr: "(n, r) \<in> kid s" by (simp add: kid_def)
  then have rr: "r \<in> reach s" using n by (rule reach_kid[rotated])
  have pk: "\<And>p. parent (heap s n) = Some p \<Longrightarrow> p \<in> reach s \<and> (p, n) \<in> kid s"
    using reach_parent[OF wf n] by auto
  have lk: "\<And>c. rchild (heap s r) = Some c \<Longrightarrow> (r, c) \<in> kid s"
    by (simp add: kid_def)
  have d1: "n \<noteq> r" using kid1_neq[OF wf n nr] .
  have d2: "parent (heap s n) \<noteq> Some r"
    using pk kid2_neq[OF wf n nr] by auto
  have d3: "parent (heap s n) \<noteq> Some n"
    using pk kid1_neq[OF wf n] by auto
  have d4: "rchild (heap s r) \<noteq> Some n"
    using lk kid2_neq[OF wf n nr] by auto
  have d5: "rchild (heap s r) \<noteq> Some r"
    using lk kid1_neq[OF wf rr] by auto
  have d6: "rchild (heap s r) = None \<or> rchild (heap s r) \<noteq> parent (heap s n)"
  proof (cases "rchild (heap s r)")
    case None then show ?thesis by simp
  next
    case (Some c)
    show ?thesis
    proof (cases "parent (heap s n)")
      case None with Some show ?thesis by simp
    next
      case p: (Some p)
      have "p \<noteq> c" using kid3_neq[of s p n r c] wf pk[OF p] nr lk[OF Some] by auto
      with Some p show ?thesis by simp
    qed
  qed
  from right_rotate_links[OF Some d1 d2 d3 d4 d5 d6] res
  have root': "root s' = (if parent (heap s n) = None then Some r else root s)"
    and R': "\<And>a. rchild (heap s' a) =
           (if a = r then Some n
            else if parent (heap s n) = Some a \<and> rchild (heap s a) = Some n then Some r
            else rchild (heap s a))"
    and L': "\<And>a. lchild (heap s' a) =
           (if a = n then rchild (heap s r)
            else if parent (heap s n) = Some a \<and> lchild (heap s a) = Some n then Some r
            else lchild (heap s a))"
    and P': "\<And>a. parent (heap s' a) =
           (if a = n then Some r
            else if a = r then parent (heap s n)
            else if rchild (heap s r) = Some a then Some n
            else parent (heap s a))"
    and C': "\<And>a. color (heap s' a) = color (heap s a)"
    and F': "\<And>a. a \<noteq> n \<Longrightarrow> a \<noteq> r \<Longrightarrow> parent (heap s n) \<noteq> Some a \<Longrightarrow> rchild (heap s r) \<noteq> Some a
            \<Longrightarrow> heap s' a = heap s a"
    by auto
  have sub: "a \<in> reach s" if "a \<in> reach s'" for a
    using that
  proof (induction rule: reach.induct)
    case (root a)
    then show ?case using root' rr by (auto split: if_splits intro: reach.root)
  next
    case (right a c)
    then show ?case using R' n rr pk by (auto split: if_splits intro: reach.right)
  next
    case (left a c)
    then show ?case using L' n rr pk by (auto split: if_splits intro: reach.left reach.right)
  qed
  have sup: "a \<in> reach s' \<and> (a = n \<longrightarrow> r \<in> reach s')" if "a \<in> reach s" for a
    using that
  proof (induction rule: reach.induct)
    case (root a)
    show ?case
    proof (cases "a = n")
      case True
      with root wf have "parent (heap s n) = None" by (auto dest: wf_rootD)
      then have "r \<in> reach s'" using root' by (auto intro: reach.root)
      moreover from this have "n \<in> reach s'" using R' by (auto intro: reach.right)
      ultimately show ?thesis using True by simp
    next
      case False
      with root wf have "parent (heap s n) \<noteq> None"
        using reach_no_parent[OF wf n] by auto
      with root root' False show ?thesis by (auto intro: reach.root)
    qed
  next
    case (right a c)
    then have ac: "parent (heap s c) = Some a" using wf
      by (auto dest: wf_rightD)
    show ?case
    proof (cases "a = r")
      case True
      then have "n \<in> reach s'" using right R' by (auto intro: reach.right)
      then have "c \<in> reach s'" using L' right True by (auto intro: reach.left)
      moreover have "c \<noteq> n" using d4 right True by auto
      ultimately show ?thesis by simp
    next
      case False
      show ?thesis
      proof (cases "c = n")
        case True
        then have "rchild (heap s' a) = Some r" using R' right ac False by auto
        then have "r \<in> reach s'" using right by (auto intro: reach.right)
        moreover from this have "n \<in> reach s'" using R' by (auto intro: reach.right)
        ultimately show ?thesis using True by simp
      next
        case c: False
        then have "rchild (heap s' a) = Some c" using R' right False by auto
        then show ?thesis using right c by (auto intro: reach.right)
      qed
    qed
  next
    case (left a c)
    then have ac: "parent (heap s c) = Some a" using wf
      by (auto dest: wf_leftD)
    show ?case
    proof (cases "a = n")
      case True
      then have "c = r" using left Some by simp
      moreover have "r \<in> reach s'" using left True by simp
      ultimately show ?thesis using d1 by simp
    next
      case False
      show ?thesis
      proof (cases "c = n")
        case True
        then have "lchild (heap s' a) = Some r" using L' left ac False by auto
        then have "r \<in> reach s'" using left by (auto intro: reach.left)
        moreover from this have "n \<in> reach s'" using R' by (auto intro: reach.right)
        ultimately show ?thesis using True by simp
      next
        case c: False
        then have "lchild (heap s' a) = Some c" using L' left False by auto
        then show ?thesis using left c by (auto intro: reach.left)
      qed
    qed
  qed
  have eq: "reach s' = reach s" using sub sup by auto
  have frame: "\<forall>a. a \<notin> reach s \<longrightarrow> heap s' a = heap s a"
    using F' n rr pk lk reach_kid[OF rr] by (metis option.exhaust)
  have wr: "\<And>a c. a \<in> reach s \<Longrightarrow> rchild (heap s a) = Some c \<Longrightarrow> parent (heap s c) = Some a"
    using wf by (auto dest: wf_rightD)
  have wl: "\<And>a c. a \<in> reach s \<Longrightarrow> lchild (heap s a) = Some c \<Longrightarrow> parent (heap s c) = Some a"
    using wf by (auto dest: wf_leftD)
  have ws: "\<And>a c. a \<in> reach s \<Longrightarrow> rchild (heap s a) = Some c \<Longrightarrow> lchild (heap s a) \<noteq> Some c"
    using wf by (auto dest: wf_sidesD)
  have pn: "parent (heap s r) = Some n" using wl[OF n Some] .
  have w1: "\<forall>a. root s' = Some a \<longrightarrow> parent (heap s' a) = None"
    using root' P' wf pn d1 wr[OF rr] by (auto split: if_splits dest: wf_rootD)
  have w2: "\<forall>a \<in> reach s'. \<forall>c. rchild (heap s' a) = Some c \<longrightarrow>
             parent (heap s' c) = Some a \<and> lchild (heap s' a) \<noteq> Some c"
    unfolding eq
    by (smt (verit, best) R' L' P' Some option.inject pn rr wr wl ws)
  have w3: "\<forall>a \<in> reach s'. \<forall>c. lchild (heap s' a) = Some c \<longrightarrow> parent (heap s' c) = Some a"
    unfolding eq
    by (smt (verit, best) R' L' P' Some option.inject pn rr n d1 d4 wr wl ws)
  have "wf_tree s'" unfolding wf_tree_def using w1 w2 w3 by blast
  then show ?thesis using eq frame C' by simp
qed

subsection \<open>The deletion fixup\<close>

lemma keeps_refl: "wf_tree s \<Longrightarrow> keeps s s"
  by (simp add: keeps_def)

lemma keeps_trans: "keeps s s1 \<Longrightarrow> keeps s1 s2 \<Longrightarrow> keeps s s2"
  by (simp add: keeps_def)

lemma reach_links_subset:
  assumes "root s' = root s" "\<And>a. lchild (heap s' a) = lchild (heap s a)"
    "\<And>a. rchild (heap s' a) = rchild (heap s a)"
  shows "a \<in> reach s' \<Longrightarrow> a \<in> reach s"
  by (induction rule: reach.induct) (auto simp: assms intro: reach.intros)

lemma reach_links_eq:
  assumes "root s' = root s" "\<And>a. lchild (heap s' a) = lchild (heap s a)"
    "\<And>a. rchild (heap s' a) = rchild (heap s a)"
  shows "reach s' = reach s"
  using reach_links_subset[of s' s] reach_links_subset[of s s'] assms by auto

lemma keeps_set_color: "wf_tree s \<Longrightarrow> a \<in> reach s \<Longrightarrow> keeps s (set_color a c s)"
proof -
  assume wf: "wf_tree s" and a: "a \<in> reach s"
  have e: "reach (set_color a c s) = reach s"
    by (rule reach_links_eq) (simp_all add: setter_simps)
  show ?thesis
    unfolding keeps_def e using wf a
    by (auto simp: wf_tree_def e setter_simps)
qed

lemma keeps_left_rotate:
  "wf_tree s \<Longrightarrow> n \<in> reach s \<Longrightarrow> left_rotate (Some n) s = Return () s' \<Longrightarrow> keeps s s'"
  using left_rotate_wf[of s n s'] by (simp add: keeps_def)

lemma keeps_right_rotate:
  "wf_tree s \<Longrightarrow> n \<in> reach s \<Longrightarrow> right_rotate (Some n) s = Return () s' \<Longrightarrow> keeps s s'"
  using right_rotate_wf[of s n s'] by (simp add: keeps_def)

lemma keepsD: "keeps s s' \<Longrightarrow> wf_tree s'" "keeps s s' \<Longrightarrow> reach s' = reach s"
  by (simp_all add: keeps_def)

lemma case1_left_keeps:
  assumes wf: "wf_tree s" and np: "np \<in> reach s" and w: "w = rchild (heap s np)"
    and res: "delete_fixup_left_case1 np w s = Return w' s1"
  shows "keeps s s1 \<and> w' = rchild (heap s1 np)"
proof (cases "is_color s w RED")
  case False
  with res wf w show ?thesis by (auto simp: delete_fixup_left_case1_def keeps_refl)
next
  case True
  then obtain wa where wa: "w = Some wa" by (cases w) (auto simp: is_color_def)
  with w np have war: "wa \<in> reach s" by (auto intro: reach.right)
  let ?s0 = "set_color np RED (set_color wa BLACK s)"
  have k1: "keeps s (set_color wa BLACK s)" using wf war by (rule keeps_set_color)
  have k2: "keeps (set_color wa BLACK s) ?s0"
    using keepsD[OF k1] np by (auto intro: keeps_set_color)
  have k0: "keeps s ?s0" using k1 k2 by (rule keeps_trans)
  from res True wa obtain s1' where rot: "left_rotate (Some np) ?s0 = Return () s1'"
    and e: "s1 = s1'" "w' = rchild (heap s1' np)"
    using left_rotate_Some[of np ?s0]
    by (auto simp: delete_fixup_left_case1_def deref_def and_then_def)
  have "keeps ?s0 s1'" using keepsD[OF k0] np rot by (auto intro: keeps_left_rotate)
  with k0 e show ?thesis by (auto intro: keeps_trans)
qed

lemma case1_right_keeps:
  assumes wf: "wf_tree s" and np: "np \<in> reach s" and w: "w = lchild (heap s np)"
    and res: "delete_fixup_right_case1 np w s = Return w' s1"
  shows "keeps s s1 \<and> w' = w"
proof (cases "is_color s w RED")
  case False
  with res wf w show ?thesis by (auto simp: delete_fixup_right_case1_def keeps_refl)
next
  case True
  then obtain wa where wa: "w = Some wa" by (cases w) (auto simp: is_color_def)
  with w np have war: "wa \<in> reach s" by (auto intro: reach.left)
  let ?s0 = "set_color np RED (set_color wa BLACK s)"
  have k1: "keeps s (set_color wa BLACK s)" using wf war by (rule keeps_set_color)
  have k2: "keeps (set_color wa BLACK s) ?s0"
    using keepsD[OF k1] np by (auto intro: keeps_set_color)
  have k0: "keeps s ?s0" using k1 k2 by (rule keeps_trans)
  from res True wa obtain s1' where rot: "right_rotate (Some np) ?s0 = Return () s1'"
    and e: "s1 = s1'" "w' = w"
    using right_rotate_Some[of np ?s0]
    by (auto simp: delete_fixup_right_case1_def deref_def and_then_def)
  have "keeps ?s0 s1'" using keepsD[OF k0] np rot by (auto intro: keeps_right_rotate)
  with k0 e show ?thesis by (auto intro: keeps_trans)
qed

lemma chain_left_keeps:
  assumes wf: "wf_tree s" and x: "x \<in> reach s" and np: "np \<in> reach s"
    and w: "w = rchild (heap s np)"
    and res: "delete_fixup_left_chain x w s = Return v s'"
  shows "keeps s s' \<and> (\<forall>a. v = Some a \<longrightarrow> a \<in> reach s')"
proof (cases "is_color s w BLACK")
  case False
  with res wf x show ?thesis by (auto simp: delete_fixup_left_chain_def keeps_refl)
next
  case True
  then obtain wa where wa: "w = Some wa" by (cases w) (auto simp: is_color_def)
  with w np have war: "wa \<in> reach s" by (auto intro: reach.right)
  have k: "keeps s (set_color wa RED s)" using wf war by (rule keeps_set_color)
  from res True wa have e: "s' = set_color wa RED s" "v = parent (heap s' x)"
    by (auto simp: delete_fixup_left_chain_def delete_fixup_case2_def deref_def Let_def)
  have "x \<in> reach s'" using keepsD(2)[OF k] x e by simp
  then have "\<forall>a. v = Some a \<longrightarrow> a \<in> reach s'"
    using reach_parent[of s' x] keepsD(1)[OF k] e by auto
  with k e show ?thesis by simp
qed

lemma chain_right_keeps:
  assumes wf: "wf_tree s" and x: "x \<in> reach s" and wr: "\<forall>wa. w = Some wa \<longrightarrow> wa \<in> reach s"
    and res: "delete_fixup_right_chain x w s = Return v s'"
  shows "keeps s s' \<and> (\<forall>a. v = Some a \<longrightarrow> a \<in> reach s')"
proof (cases "is_color s w BLACK")
  case False
  with res wf x show ?thesis by (auto simp: delete_fixup_right_chain_def keeps_refl)
next
  case True
  then obtain wa where wa: "w = Some wa" by (cases w) (auto simp: is_color_def)
  with wr have war: "wa \<in> reach s" by auto
  have k: "keeps s (set_color wa RED s)" using wf war by (rule keeps_set_color)
  from res True wa have e: "s' = set_color wa RED s" "v = parent (heap s' x)"
    by (auto simp: delete_fixup_right_chain_def delete_fixup_case2_def deref_def Let_def)
  have "x \<in> reach s'" using keepsD(2)[OF k] x e by simp
  then have "\<forall>a. v = Some a \<longrightarrow> a \<in> reach s'"
    using reach_parent[of s' x] keepsD(1)[OF k] e by auto
  with k e show ?thesis by simp
qed

lemma and_then_ReturnD:
  "and_then r f = Return v s' \<Longrightarrow> \<exists>u s1. r = Return u s1 \<and> f u s1 = Return v s'"
  by (cases r) (auto simp: and_then_def)

lemma delete_fixup_iter_keeps:
  assumes wf: "wf_tree s" and x: "x \<in> reach s"
    and res: "delete_fixup_iter x s = Return v s'"
  shows "keeps s s' \<and> (\<forall>a. v = Some a \<longrightarrow> a \<in> reach s')"
proof -
  from res obtain np where p: "parent (heap s x) = Some np"
    by (cases "parent (heap s x)")
       (auto simp: delete_fixup_iter_def delete_fixup_left_def delete_fixup_right_def deref_def
             split: if_splits)
  have np: "np \<in> reach s" using reach_parent[OF wf x p] by simp
  show ?thesis
  proof (cases "is_left_child s x")
    case True
    with res p obtain w s1 where
      c1: "delete_fixup_left_case1 np (rchild (heap s np)) s = Return w s1"
      and ch: "delete_fixup_left_chain x w s1 = Return v s'"
      by (auto simp: delete_fixup_iter_def delete_fixup_left_def deref_def dest: and_then_ReturnD)
    from case1_left_keeps[OF wf np refl c1]
    have k1: "keeps s s1" and w: "w = rchild (heap s1 np)" by auto
    have "keeps s1 s' \<and> (\<forall>a. v = Some a \<longrightarrow> a \<in> reach s')"
      using chain_left_keeps[OF keepsD(1)[OF k1] _ _ w ch] x np keepsD(2)[OF k1] by simp
    with k1 show ?thesis by (auto intro: keeps_trans)
  next
    case False
    with res p obtain w s1 where
      c1: "delete_fixup_right_case1 np (lchild (heap s np)) s = Return w s1"
      and ch: "delete_fixup_right_chain x w s1 = Return v s'"
      by (auto simp: delete_fixup_iter_def delete_fixup_right_def deref_def dest: and_then_ReturnD)
    from case1_right_keeps[OF wf np refl c1]
    have k1: "keeps s s1" and w: "w = lchild (heap s np)" by auto
    have wr: "\<forall>wa. w = Some wa \<longrightarrow> wa \<in> reach s1"
      using w np keepsD(2)[OF k1] by (auto intro: reach.left)
    have "keeps s1 s' \<and> (\<forall>a. v = Some a \<longrightarrow> a \<in> reach s')"
      using chain_right_keeps[OF keepsD(1)[OF k1] _ wr ch] x keepsD(2)[OF k1] by simp
    with k1 show ?thesis by (auto intro: keeps_trans)
  qed
qed

lemma delete_fixup_keeps:
  "wf_tree s \<Longrightarrow> \<forall>a. x = Some a \<longrightarrow> a \<in> reach s \<Longrightarrow> delete_fixup fuel x s = Return () s'
   \<Longrightarrow> keeps s s'"
proof (induction fuel arbitrary: x s)
  case 0
  then show ?case by simp
next
  case (Suc fuel)
  show ?case
  proof (cases x)
    case None
    with Suc.prems show ?thesis by (simp add: keeps_refl)
  next
    case (Some a)
    with Suc.prems have a: "a \<in> reach s" by simp
    show ?thesis
    proof (cases "x \<noteq> root s \<and> color (heap s a) = BLACK")
      case False
      with Suc.prems Some have "s' = set_color a BLACK s" by auto
      with a Suc.prems show ?thesis by (simp add: keeps_set_color)
    next
      case True
      with Suc.prems Some obtain v s1 where
        it: "delete_fixup_iter a s = Return v s1" and rest: "delete_fixup fuel v s1 = Return () s'"
        by (auto dest: and_then_ReturnD)
      from delete_fixup_iter_keeps[OF Suc.prems(1) a it]
      have k: "keeps s s1" and v: "\<forall>b. v = Some b \<longrightarrow> b \<in> reach s1" by auto
      have "keeps s1 s'" using Suc.IH[OF keepsD(1)[OF k] v rest] .
      with k show ?thesis by (rule keeps_trans)
    qed
  qed
qed

subsection \<open>The structural part of remove\<close>

text \<open>
  With two children, the successor is the end of the chain of left children below the
  right child. It is the right child itself, or a node further down whose place its own
  right child takes.
\<close>

lemma lkid_kid: "(a, b) \<in> (lkid s)\<^sup>* \<Longrightarrow> (a, b) \<in> (kid s)\<^sup>*"
  by (induction rule: rtrancl_induct) (auto simp: lkid_def kid_def intro: rtrancl_into_rtrancl)

lemma minimum_loop_spine:
  "minimum_loop fuel s (Some c) cp = Some res
   \<Longrightarrow> \<exists>ya. res = Some ya \<and> (c, ya) \<in> (lkid s)\<^sup>* \<and> lchild (heap s ya) = None"
proof (induction fuel arbitrary: c cp)
  case 0
  then show ?case by simp
next
  case (Suc fuel)
  show ?case
  proof (cases "lchild (heap s c)")
    case None
    with Suc.prems have "res = Some c" by (cases fuel) auto
    with None show ?thesis by auto
  next
    case (Some d)
    with Suc.prems have "minimum_loop fuel s (Some d) (Some c) = Some res" by simp
    from Suc.IH[OF this] obtain ya where "res = Some ya" "(d, ya) \<in> (lkid s)\<^sup>*"
      "lchild (heap s ya) = None" by auto
    moreover have "(c, d) \<in> lkid s" using Some by (simp add: lkid_def)
    ultimately show ?thesis by (auto intro: converse_rtrancl_into_rtrancl)
  qed
qed

lemma successor_two_children:
  assumes "rchild (heap s n) = Some r" "successor fuel (Some n) s = Return y s0"
  shows "s0 = s \<and> (\<exists>ya. y = Some ya \<and> (r, ya) \<in> (lkid s)\<^sup>* \<and> lchild (heap s ya) = None)"
  using assms minimum_loop_spine[of fuel s r None]
  by (auto simp: successor_def minimum_def split: option.splits)

lemma below_facts:
  assumes wf: "wf_tree s" and n: "n \<in> reach s" and nr: "(n, r) \<in> kid s"
    and b: "(r, b) \<in> (kid s)\<^sup>*"
  shows "b \<noteq> n" and "(n, l) \<in> kid s \<Longrightarrow> l \<noteq> r \<Longrightarrow> b \<noteq> l"
    and "parent (heap s n) \<noteq> Some b" and "b \<in> reach s"
proof -
  have nb: "(n, b) \<in> (kid s)\<^sup>+" using nr b by auto
  show "b \<noteq> n" using acyclic_reach[OF wf n] nb by auto
  have rr: "r \<in> reach s" using n nr by (rule reach_kid)
  show br: "b \<in> reach s" using b rr by (rule reach_kids)
  show "parent (heap s n) \<noteq> Some b"
  proof
    assume "parent (heap s n) = Some b"
    then have "(b, n) \<in> kid s" using reach_parent[OF wf n] by simp
    with nb have "(n, n) \<in> (kid s)\<^sup>+" by auto
    with acyclic_reach[OF wf n] show False by simp
  qed
  show "b \<noteq> l" if l: "(n, l) \<in> kid s" and lr: "l \<noteq> r"
  proof
    assume e: "b = l"
    with b lr have "(r, l) \<in> (kid s)\<^sup>+" by (metis rtranclD)
    then obtain z where z: "(r, z) \<in> (kid s)\<^sup>*" "(z, l) \<in> kid s" by (auto dest: tranclD2)
    have "z \<in> reach s" using z rr by (auto intro: reach_kids)
    then have "parent (heap s l) = Some z" using z wf by (auto dest: wf_kidD)
    moreover have "parent (heap s l) = Some n" using wf n l by (auto dest: wf_kidD)
    ultimately have "z = n" by simp
    with z nr have "(n, n) \<in> (kid s)\<^sup>+" by auto
    with acyclic_reach[OF wf n] show False by simp
  qed
qed

lemma splice_links_B:
  assumes "lchild (heap s n) = Some l" "rchild (heap s n) = Some r"
    "successor fuel (Some n) s = Return (Some r) s"
    "l \<noteq> n" "r \<noteq> n" "l \<noteq> r"
    "parent (heap s n) \<noteq> Some n" "parent (heap s n) \<noteq> Some r" "parent (heap s n) \<noteq> Some l"
  shows "\<exists>s'. remove_splice fuel n s = Return (rchild (heap s r), color (heap s r)) s'
     \<and> root s' = (if parent (heap s n) = None then Some r else root s)
     \<and> (\<forall>a. lchild (heap s' a) =
           (if a = r then Some l
            else if parent (heap s n) = Some a \<and> lchild (heap s a) = Some n then Some r
            else lchild (heap s a)))
     \<and> (\<forall>a. rchild (heap s' a) =
           (if parent (heap s n) = Some a \<and> lchild (heap s a) \<noteq> Some n \<and> rchild (heap s a) = Some n
            then Some r else rchild (heap s a)))
     \<and> (\<forall>a. parent (heap s' a) =
           (if a = l then Some r else if a = r then parent (heap s n) else parent (heap s a)))
     \<and> (\<forall>a. a \<noteq> r \<and> a \<noteq> l \<and> parent (heap s n) \<noteq> Some a \<longrightarrow> heap s' a = heap s a)"
proof (cases "parent (heap s n)")
  case None
  show ?thesis using assms None
    by (simp add: remove_splice_def transplant_def and_then_def deref_def Let_def setter_simps
        is_left_child_def is_right_child_def)
next
  case (Some p)
  show ?thesis using assms Some
    by (simp add: remove_splice_def transplant_def and_then_def deref_def Let_def setter_simps
        is_left_child_def is_right_child_def)
qed

lemma splice_wf_B:
  assumes wf: "wf_tree s" and n: "n \<in> reach s"
    and l: "lchild (heap s n) = Some l" and r: "rchild (heap s n) = Some r"
    and su: "successor fuel (Some n) s = Return (Some r) s"
    and res: "remove_splice fuel n s = Return (x, yc) s1"
  shows "wf_tree s1 \<and> n \<notin> reach s1 \<and> l \<in> reach s1 \<and> r \<in> reach s1
       \<and> (\<forall>a. x = Some a \<longrightarrow> a \<in> reach s1)
       \<and> heap s1 n = heap s n"
proof -
  have nl: "(n, l) \<in> kid s" and nr: "(n, r) \<in> kid s" using l r by (simp_all add: kid_def)
  have lr: "l \<noteq> r" using wf_sidesD[OF wf n l] r by auto
  have rl: "l \<in> reach s" and rr: "r \<in> reach s" using n nl nr by (auto intro: reach_kid)
  have pk: "\<And>p. parent (heap s n) = Some p \<Longrightarrow> p \<in> reach s \<and> (p, n) \<in> kid s"
    using reach_parent[OF wf n] by auto
  have d: "l \<noteq> n" "r \<noteq> n" "parent (heap s n) \<noteq> Some n" "parent (heap s n) \<noteq> Some r"
    "parent (heap s n) \<noteq> Some l"
    using kid1_neq[OF wf n nl] kid1_neq[OF wf n nr] pk kid1_neq[OF wf n] kid2_neq[OF wf n nr]
      kid2_neq[OF wf n nl] by auto
  from splice_links_B[OF l r su d(1,2) lr d(3,4,5)] res
  have root': "root s1 = (if parent (heap s n) = None then Some r else root s)"
    and x: "x = rchild (heap s r)"
    and L': "\<And>a. lchild (heap s1 a) =
           (if a = r then Some l
            else if parent (heap s n) = Some a \<and> lchild (heap s a) = Some n then Some r
            else lchild (heap s a))"
    and R': "\<And>a. rchild (heap s1 a) =
           (if parent (heap s n) = Some a \<and> lchild (heap s a) \<noteq> Some n \<and> rchild (heap s a) = Some n
            then Some r else rchild (heap s a))"
    and P': "\<And>a. parent (heap s1 a) =
           (if a = l then Some r else if a = r then parent (heap s n) else parent (heap s a))"
    and F': "\<And>a. a \<noteq> r \<Longrightarrow> a \<noteq> l \<Longrightarrow> parent (heap s n) \<noteq> Some a \<Longrightarrow> heap s1 a = heap s a"
    by auto
  have wl: "\<And>a c. a \<in> reach s \<Longrightarrow> lchild (heap s a) = Some c \<Longrightarrow> parent (heap s c) = Some a"
    using wf by (auto dest: wf_leftD)
  have wr: "\<And>a c. a \<in> reach s \<Longrightarrow> rchild (heap s a) = Some c \<Longrightarrow> parent (heap s c) = Some a"
    using wf by (auto dest: wf_rightD)
  have ws: "\<And>a c. a \<in> reach s \<Longrightarrow> lchild (heap s a) = Some c \<Longrightarrow> rchild (heap s a) \<noteq> Some c"
    using wf by (auto dest: wf_sidesD)
  have rt: "\<And>a. root s = Some a \<Longrightarrow> parent (heap s a) = None"
    using wf by (auto dest: wf_rootD)
  have sub: "a \<in> reach s \<and> a \<noteq> n" if "a \<in> reach s1" for a
    using that
  proof (induction rule: reach.induct)
    case (root a)
    then show ?case using rr d rt by (auto simp: root' split: if_splits intro: reach.root)
  next
    case (left a c)
    then show ?case using rl rr d wl[of a c] by (auto simp: L' split: if_splits intro: reach.left)
  next
    case (right a c)
    then show ?case using rr d wr[of a c] ws[of a c] by (auto simp: R' split: if_splits intro: reach.right)
  qed
  have sup: "a \<in> reach s1 \<or> (n, a) \<in> (kid s)\<^sup>*" if "a \<in> reach s" for a
    using that
  proof (induction rule: reach.induct)
    case (root a)
    show ?case
    proof (cases "parent (heap s n)")
      case None
      then have "a = n" using reach_no_parent[OF wf n] root by simp
      then show ?thesis by simp
    next
      case (Some p)
      then have "root s1 = Some a" using root by (simp add: root')
      then show ?thesis by (auto intro: reach.root)
    qed
  next
    case (left a c)
    have k: "(a, c) \<in> kid s" using left by (simp add: kid_def)
    show ?case
    proof (cases "(n, a) \<in> (kid s)\<^sup>*")
      case True
      with k show ?thesis by (auto intro: rtrancl_into_rtrancl)
    next
      case False
      with left have a: "a \<in> reach s1" by simp
      have "a \<noteq> r" using False nr by auto
      then show ?thesis using a left wl[OF left(1,2)] by (auto simp: L' intro: reach.left)
    qed
  next
    case (right a c)
    have k: "(a, c) \<in> kid s" using right by (simp add: kid_def)
    show ?case
    proof (cases "(n, a) \<in> (kid s)\<^sup>*")
      case True
      with k show ?thesis by (auto intro: rtrancl_into_rtrancl)
    next
      case False
      with right have a: "a \<in> reach s1" by simp
      then show ?thesis using right wr[OF right(1,2)] by (auto simp: R' intro: reach.right)
    qed
  qed
  have r1: "r \<in> reach s1"
  proof (cases "parent (heap s n)")
    case None
    then show ?thesis by (auto simp: root' intro: reach.root)
  next
    case (Some p)
    have "(n, p) \<notin> (kid s)\<^sup>*"
      using pk[OF Some] acyclic_reach[OF wf n] by (auto dest: rtrancl_into_trancl1)
    with sup pk[OF Some] have p1: "p \<in> reach s1" by auto
    from pk[OF Some] have "lchild (heap s p) = Some n \<or> rchild (heap s p) = Some n"
      by (simp add: kid_def)
    then show ?thesis
    proof (cases "lchild (heap s p) = Some n")
      case True
      then have "lchild (heap s1 p) = Some r" using Some d by (simp add: L')
      with p1 show ?thesis by (rule reach.left)
    next
      case False
      with \<open>lchild (heap s p) = Some n \<or> rchild (heap s p) = Some n\<close>
      have "rchild (heap s1 p) = Some r" using Some by (simp add: R')
      with p1 show ?thesis by (rule reach.right)
    qed
  qed
  have l1: "l \<in> reach s1" using r1 L'[of r] by (auto intro: reach.left)
  have x1: "\<forall>a. x = Some a \<longrightarrow> a \<in> reach s1"
    using r1 R'[of r] x d by (auto intro: reach.right)
  have n1: "n \<notin> reach s1" using sub by auto
  have fr: "heap s1 n = heap s n" using F'[of n] d by auto
  have s1s: "\<And>a. a \<in> reach s1 \<Longrightarrow> a \<in> reach s \<and> a \<noteq> n" using sub by auto
  have w1: "\<forall>a. root s1 = Some a \<longrightarrow> parent (heap s1 a) = None"
    using rt d lr wl[OF n l] wr[OF n r] by (auto simp: root' P' split: if_splits)
  have w2: "\<forall>a \<in> reach s1. \<forall>c. lchild (heap s1 a) = Some c \<longrightarrow>
             parent (heap s1 c) = Some a \<and> rchild (heap s1 a) \<noteq> Some c"
    by (smt (verit, best) L' P' R' l wf n option.inject r sub wf_sidesD wl wr)
  have w3: "\<forall>a \<in> reach s1. \<forall>c. rchild (heap s1 a) = Some c \<longrightarrow> parent (heap s1 c) = Some a"
    by (metis (full_types) P' R' l lr n option.sel r sub wl wr)
  have "wf_tree s1" unfolding wf_tree_def using w1 w2 w3 by blast
  then show ?thesis using n1 l1 r1 x1 fr by simp
qed

lemma splice_links_A:
  assumes "lchild (heap s n) = Some l" "rchild (heap s n) = Some r"
    "successor fuel (Some n) s = Return (Some ya) s"
    "ya \<noteq> r" "lchild (heap s ya) = None" "parent (heap s ya) = Some q"
    "lchild (heap s q) = Some ya"
    and d: "l \<noteq> n" "r \<noteq> n" "l \<noteq> r" "ya \<noteq> n" "ya \<noteq> l" "q \<noteq> n" "q \<noteq> l" "q \<noteq> ya"
    "parent (heap s n) \<noteq> Some n" "parent (heap s n) \<noteq> Some r" "parent (heap s n) \<noteq> Some l"
    "parent (heap s n) \<noteq> Some ya" "parent (heap s n) \<noteq> Some q"
    "rchild (heap s ya) \<noteq> Some n" "rchild (heap s ya) \<noteq> Some r" "rchild (heap s ya) \<noteq> Some l"
    "rchild (heap s ya) \<noteq> Some ya" "rchild (heap s ya) \<noteq> Some q"
    "rchild (heap s ya) = None \<or> rchild (heap s ya) \<noteq> parent (heap s n)"
  shows "\<exists>s'. remove_splice fuel n s = Return (rchild (heap s ya), color (heap s ya)) s'
     \<and> root s' = (if parent (heap s n) = None then Some ya else root s)
     \<and> (\<forall>a. lchild (heap s' a) =
           (if a = ya then Some l
            else if a = q then rchild (heap s ya)
            else if parent (heap s n) = Some a \<and> lchild (heap s a) = Some n then Some ya
            else lchild (heap s a)))
     \<and> (\<forall>a. rchild (heap s' a) =
           (if a = ya then Some r
            else if a = n then Some ya
            else if parent (heap s n) = Some a \<and> lchild (heap s a) \<noteq> Some n \<and> rchild (heap s a) = Some n
            then Some ya else rchild (heap s a)))
     \<and> (\<forall>a. parent (heap s' a) =
           (if a = ya then parent (heap s n)
            else if a = l \<or> a = r then Some ya
            else if rchild (heap s ya) = Some a then Some q
            else parent (heap s a)))
     \<and> (\<forall>a. a \<noteq> ya \<and> a \<noteq> n \<and> a \<noteq> q \<and> a \<noteq> l \<and> a \<noteq> r \<and> rchild (heap s ya) \<noteq> Some a
            \<and> parent (heap s n) \<noteq> Some a \<longrightarrow> heap s' a = heap s a)
     \<and> lchild (heap s' n) = Some l \<and> parent (heap s' n) = parent (heap s n)"
proof (cases "parent (heap s n)")
  case None
  show ?thesis
  proof (cases "rchild (heap s ya)")
    case n2: None
    show ?thesis using assms None n2
      by (simp add: remove_splice_def transplant_def and_then_def deref_def Let_def setter_simps
          is_left_child_def is_right_child_def)
  next
    case (Some x)
    show ?thesis using assms None Some
      by (simp add: remove_splice_def transplant_def and_then_def deref_def Let_def setter_simps
          is_left_child_def is_right_child_def)
  qed
next
  case (Some p)
  show ?thesis
  proof (cases "rchild (heap s ya)")
    case n2: None
    show ?thesis using assms Some n2
      by (simp add: remove_splice_def transplant_def and_then_def deref_def Let_def setter_simps
          is_left_child_def is_right_child_def)
  next
    case s2: (Some x)
    show ?thesis using assms Some s2
      by (simp add: remove_splice_def transplant_def and_then_def deref_def Let_def setter_simps
          is_left_child_def is_right_child_def)
  qed
qed

lemma lkid_kid1: "(a, b) \<in> lkid s \<Longrightarrow> (a, b) \<in> kid s"
  by (simp add: lkid_def kid_def)

lemma lkid_kid_trancl: "(a, b) \<in> (lkid s)\<^sup>+ \<Longrightarrow> (a, b) \<in> (kid s)\<^sup>+"
  by (induction rule: trancl_induct) (auto dest: lkid_kid1 intro: trancl_into_trancl)

lemma splice_wf_A:
  assumes wf: "wf_tree s" and n: "n \<in> reach s"
    and l: "lchild (heap s n) = Some l" and r: "rchild (heap s n) = Some r"
    and su: "successor fuel (Some n) s = Return (Some ya) s"
    and sp: "(r, ya) \<in> (lkid s)\<^sup>*" and ly: "lchild (heap s ya) = None"
    and yr: "ya \<noteq> r"
    and res: "remove_splice fuel n s = Return (x, yc) s1"
  shows "wf_tree s1 \<and> n \<notin> reach s1 \<and> l \<in> reach s1 \<and> ya \<in> reach s1
       \<and> (\<forall>a. x = Some a \<longrightarrow> a \<in> reach s1)
       \<and> lchild (heap s1 n) = Some l \<and> rchild (heap s1 n) = Some ya
       \<and> parent (heap s1 n) = parent (heap s n)"
proof -
  have nl: "(n, l) \<in> kid s" and nr: "(n, r) \<in> kid s" using l r by (simp_all add: kid_def)
  have lr: "l \<noteq> r" using wf_sidesD[OF wf n l] r by auto
  have rl: "l \<in> reach s" and rr: "r \<in> reach s" using n nl nr by (auto intro: reach_kid)
  have pk: "\<And>p. parent (heap s n) = Some p \<Longrightarrow> p \<in> reach s \<and> (p, n) \<in> kid s"
    using reach_parent[OF wf n] by auto
  have wl: "\<And>a c. a \<in> reach s \<Longrightarrow> lchild (heap s a) = Some c \<Longrightarrow> parent (heap s c) = Some a"
    using wf by (auto dest: wf_leftD)
  have wr: "\<And>a c. a \<in> reach s \<Longrightarrow> rchild (heap s a) = Some c \<Longrightarrow> parent (heap s c) = Some a"
    using wf by (auto dest: wf_rightD)
  have ws: "\<And>a c. a \<in> reach s \<Longrightarrow> lchild (heap s a) = Some c \<Longrightarrow> rchild (heap s a) \<noteq> Some c"
    using wf by (auto dest: wf_sidesD)
  have rt: "\<And>a. root s = Some a \<Longrightarrow> parent (heap s a) = None"
    using wf by (auto dest: wf_rootD)
  from sp yr have "(r, ya) \<in> (lkid s)\<^sup>+" by (metis rtranclD)
  then obtain q where q: "(r, q) \<in> (lkid s)\<^sup>*" "(q, ya) \<in> lkid s" by (auto dest: tranclD2)
  have lq: "lchild (heap s q) = Some ya" using q by (simp add: lkid_def)
  have below: "\<And>b. (r, b) \<in> (kid s)\<^sup>* \<Longrightarrow>
      b \<noteq> n \<and> b \<noteq> l \<and> parent (heap s n) \<noteq> Some b \<and> b \<in> reach s"
    using below_facts[OF wf n nr] nl lr by blast
  have bya: "(r, ya) \<in> (kid s)\<^sup>*" and bq: "(r, q) \<in> (kid s)\<^sup>*"
    using sp q by (auto intro: lkid_kid)
  have qy: "(q, ya) \<in> kid s" using q by (auto dest: lkid_kid1)
  have ry: "ya \<in> reach s" and rq: "q \<in> reach s" using below bya bq by auto
  have py: "parent (heap s ya) = Some q" using wl[OF rq lq] .
  have bx: "\<And>c. rchild (heap s ya) = Some c \<Longrightarrow> (r, c) \<in> (kid s)\<^sup>*"
    using bya by (auto simp: kid_def intro: rtrancl_into_rtrancl)
  have d: "l \<noteq> n" "r \<noteq> n" "ya \<noteq> n" "ya \<noteq> l" "q \<noteq> n" "q \<noteq> l" "q \<noteq> ya"
    "parent (heap s n) \<noteq> Some n" "parent (heap s n) \<noteq> Some r" "parent (heap s n) \<noteq> Some l"
    "parent (heap s n) \<noteq> Some ya" "parent (heap s n) \<noteq> Some q"
    using kid1_neq[OF wf n nl] kid1_neq[OF wf n nr] pk kid1_neq[OF wf n] kid2_neq[OF wf n nr]
      kid2_neq[OF wf n nl] below[OF bya] below[OF bq] kid1_neq[OF wf rq qy] by auto
  have dx: "rchild (heap s ya) \<noteq> Some n" "rchild (heap s ya) \<noteq> Some r"
    "rchild (heap s ya) \<noteq> Some l" "rchild (heap s ya) \<noteq> Some ya" "rchild (heap s ya) \<noteq> Some q"
    "rchild (heap s ya) = None \<or> rchild (heap s ya) \<noteq> parent (heap s n)"
  proof -
    show "rchild (heap s ya) \<noteq> Some n" "rchild (heap s ya) \<noteq> Some l"
      using below[OF bx] by auto
    show "rchild (heap s ya) \<noteq> Some r" using wr[OF ry, of r] wr[OF n r] d by auto
    show "rchild (heap s ya) \<noteq> Some ya" using kid1_neq[OF wf ry, of ya] by (auto simp: kid_def)
    show "rchild (heap s ya) \<noteq> Some q"
      using kid2_neq[OF wf rq qy, of q] by (auto simp: kid_def)
    show "rchild (heap s ya) = None \<or> rchild (heap s ya) \<noteq> parent (heap s n)"
      using below[OF bx] by (cases "rchild (heap s ya)") auto
  qed
  from splice_links_A[OF l r su yr ly py lq d(1,2) lr d(3-12) dx] res
  have root': "root s1 = (if parent (heap s n) = None then Some ya else root s)"
    and x: "x = rchild (heap s ya)"
    and L': "\<And>a. lchild (heap s1 a) =
           (if a = ya then Some l
            else if a = q then rchild (heap s ya)
            else if parent (heap s n) = Some a \<and> lchild (heap s a) = Some n then Some ya
            else lchild (heap s a))"
    and R': "\<And>a. rchild (heap s1 a) =
           (if a = ya then Some r
            else if a = n then Some ya
            else if parent (heap s n) = Some a \<and> lchild (heap s a) \<noteq> Some n \<and> rchild (heap s a) = Some n
            then Some ya else rchild (heap s a))"
    and P': "\<And>a. parent (heap s1 a) =
           (if a = ya then parent (heap s n)
            else if a = l \<or> a = r then Some ya
            else if rchild (heap s ya) = Some a then Some q
            else parent (heap s a))"
    and N': "lchild (heap s1 n) = Some l" "parent (heap s1 n) = parent (heap s n)"
    by auto
  have sub: "a \<in> reach s \<and> a \<noteq> n" if "a \<in> reach s1" for a
    using that
  proof (induction rule: reach.induct)
    case (root a)
    then show ?case using ry d rt by (auto simp: root' split: if_splits intro: reach.root)
  next
    case (left a c)
    then show ?case using rl ry d dx wl[of a c] reach.right[OF ry, of c]
      by (auto simp: L' split: if_splits intro: reach.left)
  next
    case (right a c)
    then show ?case using rr ry d wr[of a c] ws[of a c]
      by (auto simp: R' split: if_splits intro: reach.right)
  qed
  have sup: "a \<in> reach s1 \<or> (n, a) \<in> (kid s)\<^sup>*" if "a \<in> reach s" for a
    using that
  proof (induction rule: reach.induct)
    case (root a)
    show ?case
    proof (cases "parent (heap s n)")
      case None
      then have "a = n" using reach_no_parent[OF wf n] root by simp
      then show ?thesis by simp
    next
      case (Some p)
      then have "root s1 = Some a" using root by (simp add: root')
      then show ?thesis by (auto intro: reach.root)
    qed
  next
    case (left a c)
    have k: "(a, c) \<in> kid s" using left by (simp add: kid_def)
    show ?case
    proof (cases "(n, a) \<in> (kid s)\<^sup>*")
      case True
      with k show ?thesis by (auto intro: rtrancl_into_rtrancl)
    next
      case False
      with left have a: "a \<in> reach s1" by simp
      have "a \<noteq> ya" "a \<noteq> q" using False nr bya bq
        by (auto intro: converse_rtrancl_into_rtrancl)
      then show ?thesis using a left wl[OF left(1,2)] by (auto simp: L' intro: reach.left)
    qed
  next
    case (right a c)
    have k: "(a, c) \<in> kid s" using right by (simp add: kid_def)
    show ?case
    proof (cases "(n, a) \<in> (kid s)\<^sup>*")
      case True
      with k show ?thesis by (auto intro: rtrancl_into_rtrancl)
    next
      case False
      with right have a: "a \<in> reach s1" by simp
      have "a \<noteq> ya" "a \<noteq> n" using False nr bya
        by (auto intro: converse_rtrancl_into_rtrancl)
      then show ?thesis using a right wr[OF right(1,2)] by (auto simp: R' intro: reach.right)
    qed
  qed
  have y1: "ya \<in> reach s1"
  proof (cases "parent (heap s n)")
    case None
    then show ?thesis by (auto simp: root' intro: reach.root)
  next
    case (Some p)
    have "(n, p) \<notin> (kid s)\<^sup>*"
      using pk[OF Some] acyclic_reach[OF wf n] by (auto dest: rtrancl_into_trancl1)
    with sup pk[OF Some] have p1: "p \<in> reach s1" by auto
    from pk[OF Some] have c: "lchild (heap s p) = Some n \<or> rchild (heap s p) = Some n"
      by (simp add: kid_def)
    show ?thesis
    proof (cases "lchild (heap s p) = Some n")
      case True
      then have "lchild (heap s1 p) = Some ya" using Some d by (simp add: L')
      with p1 show ?thesis by (rule reach.left)
    next
      case False
      with c have "rchild (heap s1 p) = Some ya" using Some d by (simp add: R')
      with p1 show ?thesis by (rule reach.right)
    qed
  qed
  have l1: "l \<in> reach s1" using y1 L'[of ya] by (auto intro: reach.left)
  have r1: "r \<in> reach s1" using y1 R'[of ya] by (auto intro: reach.right)
  have spine: "(z, ya) \<in> (lkid s)\<^sup>+ \<longrightarrow> z \<in> reach s1" if "(r, z) \<in> (lkid s)\<^sup>*" for z
    using that
  proof (induction rule: rtrancl_induct)
    case base
    show ?case using r1 by simp
  next
    case (step z z')
    show ?case
    proof
      assume a: "(z', ya) \<in> (lkid s)\<^sup>+"
      with step have zy: "(z, ya) \<in> (lkid s)\<^sup>+" by auto
      with step have z1: "z \<in> reach s1" by simp
      have bz': "(r, z') \<in> (kid s)\<^sup>*" using step by (auto intro: lkid_kid rtrancl_into_rtrancl)
      have "ya \<noteq> z'" using acyclic_reach[OF wf ry] lkid_kid_trancl[OF a] by auto
      then have "z \<noteq> q" using step lq by (auto simp: lkid_def)
      moreover have "z \<noteq> ya" using acyclic_reach[OF wf ry] lkid_kid_trancl[OF zy] by auto
      moreover have "parent (heap s n) \<noteq> Some z" using below[of z] step by (auto intro: lkid_kid)
      ultimately have "lchild (heap s1 z) = Some z'" using step by (simp add: L' lkid_def)
      with z1 show "z' \<in> reach s1" by (rule reach.left)
    qed
  qed
  have q1: "q \<in> reach s1" using spine[OF q(1)] q(2) by auto
  have x1: "\<forall>a. x = Some a \<longrightarrow> a \<in> reach s1"
    using q1 L'[of q] x d by (auto intro: reach.left)
  have n1: "n \<notin> reach s1" using sub by auto
  have w1: "\<forall>a. root s1 = Some a \<longrightarrow> parent (heap s1 a) = None"
    using rt d lr wl[OF n l] wr[OF n r] py wr[OF ry] by (auto simp: root' P' split: if_splits)
  have w2: "\<forall>a \<in> reach s1. \<forall>c. lchild (heap s1 a) = Some c \<longrightarrow>
             parent (heap s1 c) = Some a \<and> rchild (heap s1 a) \<noteq> Some c"
    by (smt (verit, best) L' P' R' d(4) dx(2) l n option.inject py r ry sub wl wr ws)
  have w3: "\<forall>a \<in> reach s1. \<forall>c. rchild (heap s1 a) = Some c \<longrightarrow> parent (heap s1 c) = Some a"
    by (smt (verit, best) P' R' l lq n option.inject py r ry sub wl wr ws)
  have "wf_tree s1" unfolding wf_tree_def using w1 w2 w3 by blast
  then show ?thesis using n1 l1 y1 x1 N' R'[of n] d by simp
qed

lemma remove_find_in_reach:
  "remove_find fuel s n temp = Some (Some m) \<Longrightarrow> \<forall>a. temp = Some a \<longrightarrow> a \<in> reach s
   \<Longrightarrow> m \<in> reach s"
proof (induction fuel s n temp rule: remove_find.induct)
  case (1 s node temp)
  then show ?case by simp
next
  case (2 fuel s node temp)
  then show ?case
    by (cases temp) (auto split: if_splits intro: reach.left reach.right)
qed

lemma splice_few_children:
  assumes wf: "wf_tree s" and n: "n \<in> reach s"
    and c: "lchild (heap s n) = None \<or> rchild (heap s n) = None"
    and res: "remove_splice fuel n s = Return (x, yc) s1"
  shows "yc = RED \<and> heap s1 n = heap s n"
proof -
  have pk: "\<And>p. parent (heap s n) = Some p \<Longrightarrow> p \<noteq> n"
    using reach_parent[OF wf n] kid1_neq[OF wf] by auto
  have ck: "lchild (heap s n) \<noteq> Some n" "rchild (heap s n) \<noteq> Some n"
    using kid1_neq[OF wf n, of n] by (auto simp: kid_def)
  show ?thesis
  proof (cases "parent (heap s n)")
    case None
    then show ?thesis using c res ck
      by (auto simp: remove_splice_def transplant_def and_then_def Let_def setter_simps
          is_left_child_def is_right_child_def split: if_splits option.splits)
  next
    case (Some p)
    then show ?thesis using c res ck pk[OF Some]
      by (auto simp: remove_splice_def transplant_def and_then_def Let_def setter_simps
          is_left_child_def is_right_child_def split: if_splits option.splits)
  qed
qed


text \<open>
  C10: when \<^verbatim>\<open>remove\<close> returns normally on a tree with proper linkage, the removed
  node still has the parent link it had. If it had two children, its left link still
  points at its former left child and its right link points at a node, and both of these
  nodes are in the tree that \<^verbatim>\<open>remove\<close> returns. If it had fewer than two children, none
  of its fields has changed.
\<close>

theorem removed_node_keeps_links:
  assumes wf: "wf_tree s" and res: "remove fuel (Some n) s = Return () s'"
  shows "parent (heap s' n) = parent (heap s n)
       \<and> (\<forall>l r. lchild (heap s n) = Some l \<and> rchild (heap s n) = Some r \<longrightarrow>
            lchild (heap s' n) = Some l \<and> l \<in> reach s'
            \<and> (\<exists>y. rchild (heap s' n) = Some y \<and> y \<in> reach s'))
       \<and> (lchild (heap s n) = None \<or> rchild (heap s n) = None \<longrightarrow> heap s' n = heap s n)"
proof -
  from res have f: "remove_find fuel s n (root s) = Some (Some n)"
    by (auto simp: remove_def split: option.splits if_splits)
  have n: "n \<in> reach s"
    using remove_find_in_reach[OF f] by (auto intro: reach.root)
  from res f obtain x yc s1 where sp: "remove_splice fuel n s = Return (x, yc) s1"
    and fx: "(if yc = BLACK then delete_fixup fuel x s1 else Return () s1) = Return () s'"
    by (auto simp: remove_def dest!: and_then_ReturnD)
  have few: "heap s' n = heap s n" if c: "lchild (heap s n) = None \<or> rchild (heap s n) = None"
    using splice_few_children[OF wf n c sp] fx by auto
  have two: "lchild (heap s' n) = Some l \<and> l \<in> reach s'
            \<and> (\<exists>y. rchild (heap s' n) = Some y \<and> y \<in> reach s')
            \<and> parent (heap s' n) = parent (heap s n)"
    if l: "lchild (heap s n) = Some l" and r: "rchild (heap s n) = Some r" for l r
  proof -
    from sp l r obtain y s0 where su0: "successor fuel (Some n) s = Return y s0"
      by (auto simp: remove_splice_def dest!: and_then_ReturnD)
    from successor_two_children[OF r su0] obtain ya
      where ya: "y = Some ya" "(r, ya) \<in> (lkid s)\<^sup>*" "lchild (heap s ya) = None" and s0: "s0 = s"
      by auto
    have su: "successor fuel (Some n) s = Return (Some ya) s" using su0 ya s0 by simp
    have a: "wf_tree s1 \<and> n \<notin> reach s1 \<and> l \<in> reach s1 \<and> ya \<in> reach s1
       \<and> (\<forall>a. x = Some a \<longrightarrow> a \<in> reach s1)
       \<and> lchild (heap s1 n) = Some l \<and> rchild (heap s1 n) = Some ya
       \<and> parent (heap s1 n) = parent (heap s n)"
    proof (cases "ya = r")
      case True
      with splice_wf_B[OF wf n l r _ sp] su l r show ?thesis by auto
    next
      case False
      with splice_wf_A[OF wf n l r su ya(2,3) _ sp] show ?thesis by simp
    qed
    have k: "keeps s1 s'"
    proof (cases "yc = BLACK")
      case True
      with fx a show ?thesis by (auto intro: delete_fixup_keeps)
    next
      case False
      with fx a show ?thesis by (auto intro: keeps_refl)
    qed
    then have "heap s' n = heap s1 n" "reach s' = reach s1" using a by (auto simp: keeps_def)
    with a show ?thesis by auto
  qed
  show ?thesis using few two by (cases "lchild (heap s n)"; cases "rchild (heap s n)") auto
qed

lemma reach_black_leaf_tree: "a \<in> reach black_leaf_tree \<Longrightarrow> a = 1 \<or> a = 2 \<or> a = 3 \<or> a = 4"
  by (induction rule: reach.induct) (auto simp: black_leaf_tree_def split: if_splits)

lemma wf_black_leaf_tree: "wf_tree black_leaf_tree"
  unfolding wf_tree_def
  by (auto dest!: reach_black_leaf_tree) (simp_all add: black_leaf_tree_def)

theorem removed_node_keeps_links_witness:
  "wf_tree black_leaf_tree
   \<and> lchild (heap black_leaf_tree 2) = Some 1 \<and> rchild (heap black_leaf_tree 2) = Some 3
   \<and> (\<exists>s'. remove 4 (Some 2) black_leaf_tree = Return () s'
         \<and> parent (heap s' 2) = parent (heap black_leaf_tree 2)
         \<and> lchild (heap s' 2) = Some 1 \<and> 1 \<in> reach s'
         \<and> (\<exists>y. rchild (heap s' 2) = Some y \<and> y \<in> reach s'))
   \<and> lchild (heap black_leaf_tree 4) = None
   \<and> (\<exists>s'. remove 4 (Some 4) black_leaf_tree = Return () s'
         \<and> heap s' 4 = heap black_leaf_tree 4)"
proof -
  have c: "lchild (heap black_leaf_tree 2) = Some 1" "rchild (heap black_leaf_tree 2) = Some 3"
    "lchild (heap black_leaf_tree 4) = None"
    by (simp_all add: black_leaf_tree_def)
  obtain s' where e: "remove 4 (Some 2) black_leaf_tree = Return () s'"
    by (simp add: exec_simps black_leaf_tree_def)
  obtain s'' where f: "remove 4 (Some 4) black_leaf_tree = Return () s''"
    by (simp add: exec_simps black_leaf_tree_def)
  show ?thesis
    using c e f removed_node_keeps_links [OF wf_black_leaf_tree e]
      removed_node_keeps_links [OF wf_black_leaf_tree f] wf_black_leaf_tree
    by simp
qed

end
